theory Spec2Isabelle
  imports Main
begin

section \<open>Values that cross the JavaScript boundary\<close>

text \<open>
  \<^verbatim>\<open>url.parse(info.request.url, true).query[key]\<close> is \<^verbatim>\<open>undefined\<close> (modelled by
  \<open>None\<close>), a string, or an array of strings when the key is repeated. An array is an
  object: a \<^verbatim>\<open>Map\<close> compares it by identity, which the first component of \<open>QArr\<close>
  stands for.
\<close>

datatype qval = QStr string | QArr nat "string list"

text \<open>JavaScript truthiness of such a value, as \<^verbatim>\<open>!roomId\<close> tests it.\<close>

fun truthy :: "qval option \<Rightarrow> bool" where
  "truthy None = False"
| "truthy (Some (QStr s)) = (s \<noteq> [])"
| "truthy (Some (QArr i xs)) = True"

text \<open>A JavaScript number as far as \<^verbatim>\<open>consumerReplicas\<close> needs it.\<close>

datatype jsnum = NaN | Num int

fun isNaN :: "jsnum \<Rightarrow> bool" where
  "isNaN NaN = True"
| "isNaN (Num n) = False"

text \<open>An \<^verbatim>\<open>Error\<close> object: its name, its message and the optional \<^verbatim>\<open>status\<close> property.\<close>

record js_error =
  e_name :: string
  e_message :: string
  e_status :: "nat option"

type_synonym worker = nat
type_synonym handle = nat

section \<open>The JavaScript Map\<close>

text \<open>
  A \<^verbatim>\<open>Map\<close> is the list of its entries in insertion order. \<^verbatim>\<open>delete\<close> empties the
  entry in place (\<open>None\<close>), \<^verbatim>\<open>set\<close> overwrites the value of a present key and appends
  an absent one, so a running iterator never sees an entry deleted before its turn.
\<close>

type_synonym ('k, 'v) jsmap = "('k \<times> 'v) option list"

fun Map_get :: "('k, 'v) jsmap \<Rightarrow> 'k \<Rightarrow> 'v option" where
  "Map_get [] k = None"
| "Map_get (None # es) k = Map_get es k"
| "Map_get (Some (k', v) # es) k = (if k' = k then Some v else Map_get es k)"

fun Map_set :: "('k, 'v) jsmap \<Rightarrow> 'k \<Rightarrow> 'v \<Rightarrow> ('k, 'v) jsmap" where
  "Map_set [] k v = [Some (k, v)]"
| "Map_set (None # es) k v = None # Map_set es k v"
| "Map_set (Some (k', v') # es) k v =
     (if k' = k then Some (k, v) # es else Some (k', v') # Map_set es k v)"

fun Map_delete :: "('k, 'v) jsmap \<Rightarrow> 'k \<Rightarrow> ('k, 'v) jsmap" where
  "Map_delete [] k = []"
| "Map_delete (None # es) k = None # Map_delete es k"
| "Map_delete (Some (k', v') # es) k =
     (if k' = k then None # es else Some (k', v') # Map_delete es k)"

fun Map_keys :: "('k, 'v) jsmap \<Rightarrow> 'k list" where
  "Map_keys [] = []"
| "Map_keys (None # es) = Map_keys es"
| "Map_keys (Some (k, v) # es) = k # Map_keys es"

fun Map_values :: "('k, 'v) jsmap \<Rightarrow> 'v list" where
  "Map_values [] = []"
| "Map_values (None # es) = Map_values es"
| "Map_values (Some (k, v) # es) = v # Map_values es"

section \<open>The state of the server\<close>

text \<open>
  A \<^verbatim>\<open>Room\<close> instance, as far as the server sees it: the arguments \<^verbatim>\<open>Room.create\<close> got,
  whether the Room has emitted \<^verbatim>\<open>'close'\<close>, and the \<^verbatim>\<open>'close'\<close> listeners the server
  registered on it. Each listener is the closure \<^verbatim>\<open>() => rooms.delete(roomId)\<close>, kept as
  the \<^verbatim>\<open>roomId\<close> it captured.
\<close>

record room_obj =
  r_worker :: "worker option"
  r_roomId :: qval
  r_replicas :: jsnum
  r_closed :: bool
  r_onclose :: "qval list"

text \<open>The closure pushed on the \<^verbatim>\<open>AwaitQueue\<close> by one of the two ingress handlers.\<close>

datatype task =
    SignalingTask qval jsnum qval
  | BroadcasterTask qval

fun task_roomId :: "task \<Rightarrow> qval" where
  "task_roomId (SignalingTask roomId consumerReplicas peerId) = roomId"
| "task_roomId (BroadcasterTask roomId) = roomId"

text \<open>
  The module-level variables of \<^verbatim>\<open>server.js\<close>: \<^verbatim>\<open>rooms\<close>, \<^verbatim>\<open>mediasoupWorkers\<close>,
  \<^verbatim>\<open>nextMediasoupWorkerIdx\<close> and the pending tasks of \<^verbatim>\<open>queue\<close>; \<open>heap\<close> holds the
  Room objects constructed so far, a Room's handle being its index there, and
  \<open>create_calls\<close> the \<^verbatim>\<open>mediasoupWorker\<close> argument of every invocation of
  \<^verbatim>\<open>Room.create\<close> so far, in order, whether it resolved or rejected (the code keeps no
  such log; it is what an observer of \<^verbatim>\<open>Room.create\<close> sees).
\<close>

record server =
  rooms :: "(qval, handle) jsmap"
  mediasoupWorkers :: "worker list"
  nextMediasoupWorkerIdx :: nat
  queue :: "task list"
  heap :: "room_obj list"
  create_calls :: "worker option list"

definition initial :: "worker list \<Rightarrow> server" where
  "initial ws =
     \<lparr>rooms = [], mediasoupWorkers = ws, nextMediasoupWorkerIdx = 0, queue = [], heap = [],
       create_calls = []\<rparr>"

section \<open>Worker selection and room resolution\<close>

text \<open>
  \<^verbatim>\<open>getMediasoupWorker\<close>: reads \<^verbatim>\<open>mediasoupWorkers[nextMediasoupWorkerIdx]\<close>
  (\<^verbatim>\<open>undefined\<close>, here \<open>None\<close>, out of range), pre-increments the cursor and resets it
  to 0 when it equals the length of the pool.
\<close>

definition getMediasoupWorker :: "server \<Rightarrow> worker option \<times> server" where
  "getMediasoupWorker s =
     (let worker = (if nextMediasoupWorkerIdx s < length (mediasoupWorkers s)
                    then Some (mediasoupWorkers s ! nextMediasoupWorkerIdx s) else None);
          idx = nextMediasoupWorkerIdx s + 1
      in (worker,
          s\<lparr>nextMediasoupWorkerIdx := (if idx = length (mediasoupWorkers s) then 0 else idx)\<rparr>))"

text \<open>
  Modelled from the spec: \<^verbatim>\<open>Room.create\<close> (\<^verbatim>\<open>lib/Room\<close> is not among the sources). The
  construction "may itself fail": the first argument is what the environment decides for
  this invocation, \<open>Some e\<close> for a rejection with \<open>e\<close>. A successful construction
  allocates a new Room object bound to the given worker. Every invocation is logged.
\<close>

definition Room_create ::
  "js_error option \<Rightarrow> worker option \<Rightarrow> qval \<Rightarrow> jsnum \<Rightarrow> server \<Rightarrow> (js_error + handle) \<times> server" where
  "Room_create outcome mediasoupWorker roomId consumerReplicas s =
     (case outcome of
        Some e \<Rightarrow> (Inl e, s\<lparr>create_calls := create_calls s @ [mediasoupWorker]\<rparr>)
      | None \<Rightarrow>
          (Inr (length (heap s)),
           s\<lparr>heap := heap s @
                [\<lparr>r_worker = mediasoupWorker, r_roomId = roomId,
                  r_replicas = consumerReplicas, r_closed = False, r_onclose = []\<rparr>],
             create_calls := create_calls s @ [mediasoupWorker]\<rparr>))"

text \<open>\<^verbatim>\<open>room.on('close', () => rooms.delete(roomId))\<close>.\<close>

definition room_on_close :: "handle \<Rightarrow> qval \<Rightarrow> server \<Rightarrow> server" where
  "room_on_close room roomId s =
     s\<lparr>heap := (heap s)[room := (heap s ! room)\<lparr>r_onclose := r_onclose (heap s ! room) @ [roomId]\<rparr>]\<rparr>"

text \<open>
  \<^verbatim>\<open>getOrCreateRoom\<close>. A Room object is truthy, so \<^verbatim>\<open>!room\<close> holds exactly when
  \<^verbatim>\<open>rooms.get(roomId)\<close> is \<^verbatim>\<open>undefined\<close>. A rejection of \<^verbatim>\<open>Room.create\<close> leaves the
  function before \<^verbatim>\<open>rooms.set\<close>, after the worker was drawn.
\<close>

definition getOrCreateRoom ::
  "js_error option \<Rightarrow> qval \<Rightarrow> jsnum \<Rightarrow> server \<Rightarrow> (js_error + handle) \<times> server" where
  "getOrCreateRoom outcome roomId consumerReplicas s =
     (case Map_get (rooms s) roomId of
        Some room \<Rightarrow> (Inr room, s)
      | None \<Rightarrow>
          (let (mediasoupWorker, s1) = getMediasoupWorker s
           in case Room_create outcome mediasoupWorker roomId consumerReplicas s1 of
                (Inl e, s2) \<Rightarrow> (Inl e, s2)
              | (Inr room, s2) \<Rightarrow>
                  (Inr room,
                   room_on_close room roomId (s2\<lparr>rooms := Map_set (rooms s2) roomId room\<rparr>))))"


text \<open>
  Modelled from the spec: a Room's \<^verbatim>\<open>'close'\<close> notification (\<^verbatim>\<open>lib/Room\<close> is not among
  the sources). It fires once per Room: the Room becomes closed and every listener
  registered on it runs, each deleting the \<^verbatim>\<open>roomId\<close> it captured from \<^verbatim>\<open>rooms\<close>.
\<close>

definition room_emit_close :: "handle \<Rightarrow> server \<Rightarrow> server" where
  "room_emit_close room s =
     (if room < length (heap s) \<and> \<not> r_closed (heap s ! room)
      then s\<lparr>heap := (heap s)[room := (heap s ! room)\<lparr>r_closed := True\<rparr>],
             rooms := foldl Map_delete (rooms s) (r_onclose (heap s ! room))\<rparr>
      else s)"

section \<open>The two ingress handlers and the queue\<close>

text \<open>What a handler does to the outside: the callbacks it invokes, in order.\<close>

datatype action =
    Reject nat string
  | Reject_error js_error
  | Accept
  | HandleProtooConnection handle qval
  | Req_room handle
  | Next
  | Next_error js_error

text \<open>
  The parsed query of a connection request: \<^verbatim>\<open>u.query['roomId']\<close>,
  \<^verbatim>\<open>u.query['peerId']\<close> and \<^verbatim>\<open>Number(u.query['consumerReplicas'])\<close>.
\<close>

record query =
  q_roomId :: "qval option"
  q_peerId :: "qval option"
  q_consumerReplicas :: jsnum

text \<open>
  The \<^verbatim>\<open>'connectionrequest'\<close> listener up to \<^verbatim>\<open>queue.push\<close>. Past the guard both values
  are truthy, hence defined.
\<close>

definition connectionrequest :: "query \<Rightarrow> server \<Rightarrow> action list \<times> server" where
  "connectionrequest u s =
     (if \<not> truthy (q_roomId u) \<or> \<not> truthy (q_peerId u)
      then ([Reject 400 ''Connection request without roomId and/or peerId''], s)
      else
        (let consumerReplicas =
               (if isNaN (q_consumerReplicas u) then Num 0 else q_consumerReplicas u)
         in ([], s\<lparr>queue := queue s @
                     [SignalingTask (the (q_roomId u)) consumerReplicas (the (q_peerId u))]\<rparr>)))"

text \<open>The \<^verbatim>\<open>expressApp.param('roomId', ...)\<close> callback up to \<^verbatim>\<open>queue.push\<close>.\<close>

definition express_param :: "string \<Rightarrow> server \<Rightarrow> action list \<times> server" where
  "express_param roomId s = ([], s\<lparr>queue := queue s @ [BroadcasterTask (QStr roomId)]\<rparr>)"

text \<open>
  The body of a pushed closure together with its \<^verbatim>\<open>.catch\<close>. \<open>outcome\<close> is what
  \<^verbatim>\<open>Room.create\<close> does if it is invoked, \<open>thrown\<close> what the call after the resolution
  (\<^verbatim>\<open>room.handleProtooConnection\<close>, \<^verbatim>\<open>next\<close>) throws, if anything.
\<close>

fun run_task :: "js_error option \<Rightarrow> js_error option \<Rightarrow> task \<Rightarrow> server \<Rightarrow> action list \<times> server" where
  "run_task outcome thrown (SignalingTask roomId consumerReplicas peerId) s =
     (case getOrCreateRoom outcome roomId consumerReplicas s of
        (Inl error, s') \<Rightarrow> ([Reject_error error], s')
      | (Inr room, s') \<Rightarrow>
          (case thrown of
             None \<Rightarrow> ([Accept, HandleProtooConnection room peerId], s')
           | Some error \<Rightarrow>
               ([Accept, HandleProtooConnection room peerId, Reject_error error], s')))"
| "run_task outcome thrown (BroadcasterTask roomId) s =
     (case getOrCreateRoom outcome roomId (Num 0) s of
        (Inl error, s') \<Rightarrow> ([Next_error error], s')
      | (Inr room, s') \<Rightarrow>
          (case thrown of
             None \<Rightarrow> ([Req_room room, Next], s')
           | Some error \<Rightarrow> ([Req_room room, Next, Next_error error], s')))"

text \<open>
  The \<^verbatim>\<open>AwaitQueue\<close> runs the pending closures one at a time, oldest first; a closure
  that fails does not stop the next one.
\<close>

definition queue_next :: "js_error option \<Rightarrow> js_error option \<Rightarrow> server \<Rightarrow> action list \<times> server" where
  "queue_next outcome thrown s =
     (case queue s of
        [] \<Rightarrow> ([], s)
      | t # ts \<Rightarrow> run_task outcome thrown t (s\<lparr>queue := ts\<rparr>))"

text \<open>Running the queue until it is empty, with the environment's answer for each task.\<close>

fun queue_drain :: "(js_error option \<times> js_error option) list \<Rightarrow> server \<Rightarrow> action list list \<times> server" where
  "queue_drain [] s = ([], s)"
| "queue_drain ((outcome, thrown) # envs) s =
     (case queue s of
        [] \<Rightarrow> ([], s)
      | t # ts \<Rightarrow>
          (let (acts, s1) = queue_next outcome thrown s;
               (rest, s2) = queue_drain envs s1
           in (acts # rest, s2)))"


section \<open>The server as a transition system\<close>

datatype event =
    ConnectionRequest query
  | ExpressParam string
  | QueueNext "js_error option" "js_error option"
  | RoomClose handle

fun step :: "server \<Rightarrow> event \<Rightarrow> server" where
  "step s (ConnectionRequest u) = snd (connectionrequest u s)"
| "step s (ExpressParam roomId) = snd (express_param roomId s)"
| "step s (QueueNext outcome thrown) = snd (queue_next outcome thrown s)"
| "step s (RoomClose room) = room_emit_close room s"

definition run :: "event list \<Rightarrow> server \<Rightarrow> server" where
  "run evs s = foldl step s evs"

section \<open>The error handler of the broadcaster API\<close>

text \<open>\<^verbatim>\<open>String(error)\<close>, that is \<^verbatim>\<open>Error.prototype.toString\<close>.\<close>

definition String_error :: "js_error \<Rightarrow> string" where
  "String_error error =
     (if e_name error = [] then e_message error
      else if e_message error = [] then e_name error
      else e_name error @ '': '' @ e_message error)"

text \<open>
  Node refuses a \<^verbatim>\<open>res.statusMessage\<close>, when the head of the response is written, if
  one of its characters is neither a tab nor in 0x20..0x7e nor in 0x80..0xff.
  \<open>valid_reason\<close> holds of the messages it surely accepts, whose characters are tabs
  or in 0x20..0x7e, and \<open>invalid_reason\<close> of those it surely refuses, which have a
  control character other than the tab, or 0x7f. A \<open>char\<close> from 0x80 on may be a
  character up to 0xff, accepted, or a part of the encoding of one above 0xff, refused:
  a message with one is neither.
\<close>

definition valid_reason :: "string \<Rightarrow> bool" where
  "valid_reason msg =
     list_all (\<lambda>c. of_char c = (9::nat) \<or> (32 \<le> (of_char c :: nat) \<and> (of_char c :: nat) \<le> 126)) msg"

definition invalid_reason :: "string \<Rightarrow> bool" where
  "invalid_reason msg =
     list_ex (\<lambda>c. ((of_char c :: nat) < 32 \<and> of_char c \<noteq> (9::nat)) \<or> of_char c = (127::nat)) msg"

text \<open>
  What becomes of a request in the error handler: \<^verbatim>\<open>next()\<close> is called; or the handler
  throws; or a response with a status and a body reaches the client; or a response is
  sent that is not described here.
\<close>

datatype handled = Next_called | Thrown | Not_described | Sent nat string

text \<open>
  The four-argument middleware, run before any part of a response has been written (the
  routes respond last). \<open>None\<close> is a falsy \<^verbatim>\<open>error\<close>, for which \<^verbatim>\<open>next()\<close> is called.
  A \<^verbatim>\<open>status\<close> that is \<^verbatim>\<open>undefined\<close> or 0 is falsy. \<open>head\<close> says that the request
  method is \<^verbatim>\<open>HEAD\<close>, for which \<^verbatim>\<open>res.send\<close> sends no body.

  \<^verbatim>\<open>res.status(error.status).send(String(error))\<close> does not always send: writing the
  head of the response throws for a status outside 100..999 and for a
  \<^verbatim>\<open>res.statusMessage\<close>, here \<^verbatim>\<open>error.message\<close>, that Node refuses; the exception
  leaves the handler. For a status below 400 the response depends on more than the
  error (no body goes with 1xx, 204 and 304, a conditional request may turn a 2xx into
  304), and for a message that is neither surely accepted nor surely refused it depends
  on the characters meant; those responses are left undescribed.
\<close>

definition error_handler :: "bool \<Rightarrow> js_error option \<Rightarrow> handled" where
  "error_handler head err =
     (case err of
        None \<Rightarrow> Next_called
      | Some error \<Rightarrow>
          (let status =
                 (if e_status error \<noteq> None \<and> e_status error \<noteq> Some 0 then the (e_status error)
                  else if e_name error = ''TypeError'' then 400 else 500)
           in if status < 100 \<or> 999 < status \<or> invalid_reason (e_message error) then Thrown
              else if status < 400 \<or> \<not> valid_reason (e_message error) then Not_described
              else Sent status (if head then [] else String_error error)))"

section \<open>The periodic status report\<close>

text \<open>
  The \<^verbatim>\<open>setInterval\<close> callback of \<^verbatim>\<open>run\<close>:
  \<^verbatim>\<open>for (const room of rooms.values()) room.logStatus()\<close>. The iterator of a \<^verbatim>\<open>Map\<close>
  walks the entries by index and passes over the emptied ones; \<open>i\<close> is that index and
  \<open>logged\<close> the Rooms whose \<^verbatim>\<open>logStatus\<close> has returned.

  Modelled from the spec: \<^verbatim>\<open>Room.logStatus\<close> and the Rooms that close while the report
  runs (\<^verbatim>\<open>lib/Room\<close> is not among the sources). \<open>logStatus\<close> says, for the Room object
  as it is at the call, whether the call throws; \<open>closing i\<close> are the Rooms that emit
  \<^verbatim>\<open>'close'\<close>, one after the other, after the iterator has looked at the entries
  before \<open>i\<close> and before it looks at entry \<open>i\<close>. An exception leaves the loop.
\<close>

text \<open>Several Rooms emit \<^verbatim>\<open>'close'\<close>, one after the other.\<close>

definition closes :: "handle list \<Rightarrow> server \<Rightarrow> server" where
  "closes hs s = foldl (\<lambda>s' room. room_emit_close room s') s hs"

function logStatus_loop ::
  "(room_obj \<Rightarrow> js_error option) \<Rightarrow> (nat \<Rightarrow> handle list) \<Rightarrow> nat \<Rightarrow> handle list \<Rightarrow> server
     \<Rightarrow> (js_error + handle list) \<times> server" where
  "logStatus_loop logStatus closing i logged s =
     (let s1 = closes (closing i) s
      in if i < length (rooms s1)
         then (case rooms s1 ! i of
                 None \<Rightarrow> logStatus_loop logStatus closing (Suc i) logged s1
               | Some (roomId, room) \<Rightarrow>
                   (case logStatus (heap s1 ! room) of
                      Some e \<Rightarrow> (Inl e, s1)
                    | None \<Rightarrow> logStatus_loop logStatus closing (Suc i) (logged @ [room]) s1))
         else (Inr logged, s1))"
  by pat_completeness auto
termination
proof -
  have del: "length (Map_delete m k) = length m" for m :: "(qval, handle) jsmap" and k
    by (induction m k rule: Map_delete.induct) simp_all
  have dels: "length (foldl Map_delete m ks) = length m"
    for m :: "(qval, handle) jsmap" and ks
    by (induction ks arbitrary: m) (simp_all add: del)
  have cl: "length (rooms (room_emit_close h s)) = length (rooms s)" for h s
    by (simp add: room_emit_close_def dels)
  have cls: "length (rooms (closes hs s)) = length (rooms s)" for hs s
    unfolding closes_def by (induction hs arbitrary: s) (simp_all add: cl)
  show ?thesis
    by (relation "measure (\<lambda>(logStatus, closing, i, logged, s). length (rooms s) - i)")
       (auto simp: cls)
qed

declare logStatus_loop.simps [simp del]

definition logRoomsStatus ::
  "(room_obj \<Rightarrow> js_error option) \<Rightarrow> (nat \<Rightarrow> handle list) \<Rightarrow> server
     \<Rightarrow> (js_error + handle list) \<times> server" where
  "logRoomsStatus logStatus closing s = logStatus_loop logStatus closing 0 [] s"

section \<open>Launching the workers\<close>

text \<open>
  A \<^verbatim>\<open>listenInfo\<close> object of \<^verbatim>\<open>config.mediasoup.webRtcServerOptions.listenInfos\<close>;
  its \<^verbatim>\<open>port\<close> is a number. The objects live in a store, an object's address being its
  index there, so that two arrays may hold the same object.
\<close>

record listenInfo =
  li_protocol :: string
  li_ip :: string
  li_port :: int

text \<open>
  What \<^verbatim>\<open>runMediasoupWorkers\<close> reads of \<^verbatim>\<open>config.mediasoup\<close>: \<^verbatim>\<open>numWorkers\<close> and the
  addresses of the objects in \<^verbatim>\<open>webRtcServerOptions.listenInfos\<close>.
\<close>

record config =
  numWorkers :: nat
  listenInfos :: "nat list"

text \<open>
  The store, \<^verbatim>\<open>mediasoupWorkers\<close>, and for every WebRtcServer created its worker with
  the \<^verbatim>\<open>listenInfos\<close> that \<^verbatim>\<open>worker.createWebRtcServer\<close> was given, as they were at
  the call.
\<close>

record boot =
  b_store :: "listenInfo list"
  b_workers :: "worker list"
  b_servers :: "(worker \<times> listenInfo list) list"

text \<open>
  Modelled from the spec: \<^verbatim>\<open>utils.clone\<close> (\<^verbatim>\<open>lib/utils\<close> is not among the sources), a
  deep clone: every object of the array is copied to a new address.
\<close>

definition clone :: "nat list \<Rightarrow> listenInfo list \<Rightarrow> nat list \<times> listenInfo list" where
  "clone infos store =
     ([length store ..< length store + length infos], store @ map (\<lambda>a. store ! a) infos)"

text \<open>\<^verbatim>\<open>listenInfo.port += portIncrement\<close> on the object at address \<open>a\<close>.\<close>

definition add_port :: "int \<Rightarrow> listenInfo list \<Rightarrow> nat \<Rightarrow> listenInfo list" where
  "add_port portIncrement store a =
     store[a := (store ! a)\<lparr>li_port := li_port (store ! a) + portIncrement\<rparr>]"

text \<open>
  The \<^verbatim>\<open>for\<close> loop of \<^verbatim>\<open>runMediasoupWorkers\<close>. \<open>createWorker i\<close> is what
  \<^verbatim>\<open>mediasoup.createWorker\<close> answers in round \<open>i\<close>, \<open>createWebRtcServer i\<close> whether
  \<^verbatim>\<open>worker.createWebRtcServer\<close> rejects there, and \<open>useWebRtcServer\<close> the test
  \<^verbatim>\<open>process.env.MEDIASOUP_USE_WEBRTC_SERVER !== 'false'\<close>. A rejection ends the function.
\<close>

function workers_loop ::
  "(nat \<Rightarrow> js_error + worker) \<Rightarrow> (nat \<Rightarrow> js_error option) \<Rightarrow> bool \<Rightarrow> config \<Rightarrow> nat \<Rightarrow> boot
     \<Rightarrow> js_error + boot" where
  "workers_loop createWorker createWebRtcServer useWebRtcServer cfg i b =
     (if i < numWorkers cfg
      then (case createWorker i of
              Inl e \<Rightarrow> Inl e
            | Inr worker \<Rightarrow>
                (let b1 = b\<lparr>b_workers := b_workers b @ [worker]\<rparr>
                 in if useWebRtcServer
                    then (let (webRtcServerOptions, store1) = clone (listenInfos cfg) (b_store b1);
                              portIncrement = int (length (b_workers b1)) - 1;
                              store2 = foldl (add_port portIncrement) store1 webRtcServerOptions
                          in case createWebRtcServer i of
                               Some e \<Rightarrow> Inl e
                             | None \<Rightarrow>
                                 workers_loop createWorker createWebRtcServer useWebRtcServer cfg
                                   (Suc i)
                                   (b1\<lparr>b_store := store2,
                                      b_servers := b_servers b1 @
                                        [(worker, map (\<lambda>a. store2 ! a) webRtcServerOptions)]\<rparr>))
                    else workers_loop createWorker createWebRtcServer useWebRtcServer cfg
                           (Suc i) b1))
      else Inr b)"
  by pat_completeness auto
termination
  by (relation "measure (\<lambda>(createWorker, createWebRtcServer, useWebRtcServer, cfg, i, b).
        numWorkers cfg - i)") auto

declare workers_loop.simps [simp del]

text \<open>\<^verbatim>\<open>runMediasoupWorkers\<close>, called once, when \<^verbatim>\<open>mediasoupWorkers\<close> is still empty.\<close>

definition runMediasoupWorkers ::
  "(nat \<Rightarrow> js_error + worker) \<Rightarrow> (nat \<Rightarrow> js_error option) \<Rightarrow> bool \<Rightarrow> config \<Rightarrow> listenInfo list
     \<Rightarrow> js_error + boot" where
  "runMediasoupWorkers createWorker createWebRtcServer useWebRtcServer cfg store =
     workers_loop createWorker createWebRtcServer useWebRtcServer cfg 0
       \<lparr>b_store = store, b_workers = [], b_servers = []\<rparr>"

section \<open>Notions used to state the properties\<close>

text \<open>The \<^verbatim>\<open>consumerReplicas\<close> a task passes to \<^verbatim>\<open>getOrCreateRoom\<close>.\<close>

fun task_consumerReplicas :: "task \<Rightarrow> jsnum" where
  "task_consumerReplicas (SignalingTask roomId consumerReplicas peerId) = consumerReplicas"
| "task_consumerReplicas (BroadcasterTask roomId) = Num 0"


text \<open>An event in which no construction is rejected.\<close>

fun resolves :: "event \<Rightarrow> bool" where
  "resolves (QueueNext (Some e) thrown) = False"
| "resolves ev = True"

text \<open>The worker under the cursor and the cursor after one draw.\<close>

definition cur_worker :: "server \<Rightarrow> worker option" where
  "cur_worker s = (if nextMediasoupWorkerIdx s < length (mediasoupWorkers s)
                    then Some (mediasoupWorkers s ! nextMediasoupWorkerIdx s) else None)"

definition next_idx :: "server \<Rightarrow> nat" where
  "next_idx s = (if Suc (nextMediasoupWorkerIdx s) = length (mediasoupWorkers s) then 0
                 else Suc (nextMediasoupWorkerIdx s))"

text \<open>
  The Registry and the Room objects agree: an identifier is the key of at most one entry;
  a registered Room exists, is open and was created under its key; every Room carries
  the one listener that deletes its key; every open Room is registered.
\<close>

definition registry_ok :: "server \<Rightarrow> bool" where
  "registry_ok s \<longleftrightarrow>
     distinct (Map_keys (rooms s)) \<and>
     (\<forall>k h. Map_get (rooms s) k = Some h \<longrightarrow>
        h < length (heap s) \<and> \<not> r_closed (heap s ! h) \<and> r_roomId (heap s ! h) = k) \<and>
     (\<forall>h<length (heap s). r_onclose (heap s ! h) = [r_roomId (heap s ! h)]) \<and>
     (\<forall>h<length (heap s). \<not> r_closed (heap s ! h) \<longrightarrow>
        Map_get (rooms s) (r_roomId (heap s ! h)) = Some h)"


text \<open>
  The cursor is the number of constructions attempted so far modulo the pool size, and
  attempt \<open>k\<close> was given the worker at index \<open>k mod length ws\<close>.
\<close>

definition cursor_ok :: "worker list \<Rightarrow> server \<Rightarrow> bool" where
  "cursor_ok ws s \<longleftrightarrow>
     mediasoupWorkers s = ws \<and>
     nextMediasoupWorkerIdx s = length (create_calls s) mod length ws \<and>
     (\<forall>k<length (create_calls s). create_calls s ! k = Some (ws ! (k mod length ws)))"

text \<open>No construction was rejected so far: the Room objects are the attempts.\<close>

definition all_built :: "server \<Rightarrow> bool" where
  "all_built s \<longleftrightarrow> map r_worker (heap s) = create_calls s"

section \<open>Facts about the Map\<close>

lemma Map_get_None_iff: "Map_get m k = None \<longleftrightarrow> k \<notin> set (Map_keys m)"
  by (induction m k rule: Map_get.induct) auto

lemma Map_get_set: "Map_get (Map_set m k v) k' = (if k' = k then Some v else Map_get m k')"
  by (induction m k v rule: Map_set.induct) auto

lemma Map_keys_set:
  "Map_keys (Map_set m k v) = (if k \<in> set (Map_keys m) then Map_keys m else Map_keys m @ [k])"
  by (induction m k v rule: Map_set.induct) auto

lemma Map_keys_delete: "Map_keys (Map_delete m k) = remove1 k (Map_keys m)"
  by (induction m k rule: Map_delete.induct) auto

lemma Map_get_delete:
  "distinct (Map_keys m) \<Longrightarrow>
   Map_get (Map_delete m k) k' = (if k' = k then None else Map_get m k')"
  by (induction m k rule: Map_delete.induct) (auto simp: Map_get_None_iff)

section \<open>Facts about room resolution\<close>

lemmas eval_defs =
  run_def initial_def connectionrequest_def express_param_def queue_next_def
  getOrCreateRoom_def getMediasoupWorker_def Room_create_def room_on_close_def
  room_emit_close_def

lemma getMediasoupWorker_eq:
  "getMediasoupWorker s = (cur_worker s, s\<lparr>nextMediasoupWorkerIdx := next_idx s\<rparr>)"
  by (simp add: getMediasoupWorker_def cur_worker_def next_idx_def Let_def)

lemma getOrCreateRoom_found:
  assumes "Map_get (rooms s) roomId = Some room"
  shows "getOrCreateRoom outcome roomId consumerReplicas s = (Inr room, s)"
  using assms by (simp add: getOrCreateRoom_def)

lemma getOrCreateRoom_absent_ok:
  assumes "Map_get (rooms s) k = None"
  shows "getOrCreateRoom None k cr s =
    (Inr (length (heap s)),
     s\<lparr>nextMediasoupWorkerIdx := next_idx s,
       heap := heap s @ [\<lparr>r_worker = cur_worker s, r_roomId = k, r_replicas = cr,
                          r_closed = False, r_onclose = [k]\<rparr>],
       create_calls := create_calls s @ [cur_worker s],
       rooms := Map_set (rooms s) k (length (heap s))\<rparr>)"
  using assms
  by (simp add: getOrCreateRoom_def getMediasoupWorker_eq Room_create_def room_on_close_def)

lemma getOrCreateRoom_absent_fail:
  assumes "Map_get (rooms s) k = None"
  shows "getOrCreateRoom (Some e) k cr s =
    (Inl e, s\<lparr>nextMediasoupWorkerIdx := next_idx s,
              create_calls := create_calls s @ [cur_worker s]\<rparr>)"
  using assms
  by (simp add: getOrCreateRoom_def getMediasoupWorker_eq Room_create_def room_on_close_def)

lemma snd_run_task:
  "snd (run_task oc th t s) =
   snd (getOrCreateRoom oc (task_roomId t) (task_consumerReplicas t) s)"
  by (cases t) (auto split: prod.splits sum.splits option.splits)



section \<open>The Registry and the Room objects agree in every reachable state\<close>

lemma registry_ok_initial: "registry_ok (initial ws)"
  by (simp add: registry_ok_def initial_def)

lemma registry_ok_queue [simp]: "registry_ok (s\<lparr>queue := q\<rparr>) = registry_ok s"
  by (simp add: registry_ok_def)

lemma registry_ok_created:
  assumes ok: "registry_ok s" and absent: "Map_get (rooms s) k = None"
  shows "registry_ok
    (s\<lparr>nextMediasoupWorkerIdx := i,
       heap := heap s @ [\<lparr>r_worker = w, r_roomId = k, r_replicas = cr,
                          r_closed = False, r_onclose = [k]\<rparr>],
       create_calls := cs,
       rooms := Map_set (rooms s) k (length (heap s))\<rparr>)"
  (is "registry_ok ?s'")
proof -
  let ?n = "length (heap s)"
  have d: "distinct (Map_keys (rooms s))"
    and reg: "\<And>k' h. Map_get (rooms s) k' = Some h \<Longrightarrow>
        h < ?n \<and> \<not> r_closed (heap s ! h) \<and> r_roomId (heap s ! h) = k'"
    and lis: "\<And>h. h < ?n \<Longrightarrow> r_onclose (heap s ! h) = [r_roomId (heap s ! h)]"
    and opn: "\<And>h. h < ?n \<Longrightarrow> \<not> r_closed (heap s ! h) \<Longrightarrow>
        Map_get (rooms s) (r_roomId (heap s ! h)) = Some h"
    using ok by (simp_all add: registry_ok_def)
  have nk: "k \<notin> set (Map_keys (rooms s))" using absent by (simp add: Map_get_None_iff)
  have c1: "distinct (Map_keys (rooms ?s'))" using d nk by (simp add: Map_keys_set)
  have c2: "h < length (heap ?s') \<and> \<not> r_closed (heap ?s' ! h) \<and> r_roomId (heap ?s' ! h) = k'"
    if "Map_get (rooms ?s') k' = Some h" for k' h
  proof (cases "k' = k")
    case True
    then have "h = ?n" using that by (simp add: Map_get_set)
    then show ?thesis using True by simp
  next
    case False
    then have "Map_get (rooms s) k' = Some h" using that by (simp add: Map_get_set)
    from reg[OF this] show ?thesis by (simp add: nth_append)
  qed
  have c3: "r_onclose (heap ?s' ! h) = [r_roomId (heap ?s' ! h)]" if "h < length (heap ?s')" for h
  proof (cases "h < ?n")
    case True
    then show ?thesis using lis[OF True] by (simp add: nth_append)
  next
    case False
    then have "h = ?n" using that by simp
    then show ?thesis by simp
  qed
  have c4: "Map_get (rooms ?s') (r_roomId (heap ?s' ! h)) = Some h"
    if "h < length (heap ?s')" "\<not> r_closed (heap ?s' ! h)" for h
  proof (cases "h < ?n")
    case True
    then have o: "\<not> r_closed (heap s ! h)" using that(2) by (simp add: nth_append)
    have g: "Map_get (rooms s) (r_roomId (heap s ! h)) = Some h" by (rule opn[OF True o])
    then have "r_roomId (heap s ! h) \<noteq> k" using absent by auto
    then show ?thesis using True g by (simp add: nth_append Map_get_set)
  next
    case False
    then have "h = ?n" using that(1) by simp
    then show ?thesis by (simp add: Map_get_set)
  qed
  show ?thesis unfolding registry_ok_def using c1 c2 c3 c4 by blast
qed

lemma registry_ok_getOrCreateRoom:
  assumes "registry_ok s"
  shows "registry_ok (snd (getOrCreateRoom oc k cr s))"
proof (cases "Map_get (rooms s) k")
  case (Some h)
  then show ?thesis using assms by (simp add: getOrCreateRoom_found)
next
  case None
  show ?thesis
  proof (cases oc)
    case (Some e)
    then show ?thesis using assms None
      by (simp add: getOrCreateRoom_absent_fail registry_ok_def)
  next
    case oc: None
    show ?thesis unfolding oc
      by (simp add: getOrCreateRoom_absent_ok[OF None] registry_ok_created[OF assms None])
  qed
qed

lemma registry_ok_close:
  assumes ok: "registry_ok s"
  shows "registry_ok (room_emit_close h s)"
proof (cases "h < length (heap s) \<and> \<not> r_closed (heap s ! h)")
  case False
  then show ?thesis using ok by (auto simp: room_emit_close_def)
next
  case True
  let ?n = "length (heap s)"
  let ?k = "r_roomId (heap s ! h)"
  have d: "distinct (Map_keys (rooms s))"
    and reg: "\<And>k' h. Map_get (rooms s) k' = Some h \<Longrightarrow>
        h < ?n \<and> \<not> r_closed (heap s ! h) \<and> r_roomId (heap s ! h) = k'"
    and lis: "\<And>h. h < ?n \<Longrightarrow> r_onclose (heap s ! h) = [r_roomId (heap s ! h)]"
    and opn: "\<And>h. h < ?n \<Longrightarrow> \<not> r_closed (heap s ! h) \<Longrightarrow>
        Map_get (rooms s) (r_roomId (heap s ! h)) = Some h"
    using ok by (simp_all add: registry_ok_def)
  have hn: "h < ?n" and ho: "\<not> r_closed (heap s ! h)" using True by simp_all
  have eq: "room_emit_close h s =
     s\<lparr>heap := (heap s)[h := (heap s ! h)\<lparr>r_closed := True\<rparr>], rooms := Map_delete (rooms s) ?k\<rparr>"
    (is "_ = ?s'")
    using True lis[OF hn] by (simp add: room_emit_close_def)
  have regh: "Map_get (rooms s) ?k = Some h" by (rule opn[OF hn ho])
  have c1: "distinct (Map_keys (rooms ?s'))" using d by (simp add: Map_keys_delete)
  have c2: "h' < length (heap ?s') \<and> \<not> r_closed (heap ?s' ! h') \<and> r_roomId (heap ?s' ! h') = k'"
    if "Map_get (rooms ?s') k' = Some h'" for k' h'
  proof -
    have kk: "k' \<noteq> ?k" and g: "Map_get (rooms s) k' = Some h'"
      using that d by (auto simp: Map_get_delete split: if_splits)
    from reg[OF g] have r: "h' < ?n" "\<not> r_closed (heap s ! h')" "r_roomId (heap s ! h') = k'"
      by simp_all
    have "h' \<noteq> h" using r(3) kk by auto
    then show ?thesis using r by simp
  qed
  have c3: "r_onclose (heap ?s' ! h') = [r_roomId (heap ?s' ! h')]" if "h' < length (heap ?s')" for h'
    using that lis[of h'] by (cases "h' = h") simp_all
  have c4: "Map_get (rooms ?s') (r_roomId (heap ?s' ! h')) = Some h'"
    if "h' < length (heap ?s')" "\<not> r_closed (heap ?s' ! h')" for h'
  proof -
    have ne: "h' \<noteq> h" using that by auto
    have l: "h' < ?n" using that(1) by simp
    have o: "\<not> r_closed (heap s ! h')" using that(2) ne by simp
    have g: "Map_get (rooms s) (r_roomId (heap s ! h')) = Some h'" by (rule opn[OF l o])
    have "r_roomId (heap s ! h') \<noteq> ?k" using g regh ne by auto
    then show ?thesis using g ne d by (simp add: Map_get_delete)
  qed
  show ?thesis unfolding eq registry_ok_def using c1 c2 c3 c4 by blast
qed

lemma registry_ok_queue_next: "registry_ok s \<Longrightarrow> registry_ok (snd (queue_next oc th s))"
proof -
  assume a: "registry_ok s"
  show ?thesis
  proof (cases "queue s")
    case Nil
    then show ?thesis using a by (simp add: queue_next_def)
  next
    case (Cons t ts)
    show ?thesis using a Cons
      by (simp add: queue_next_def snd_run_task registry_ok_getOrCreateRoom)
  qed
qed

lemma registry_ok_step: "registry_ok s \<Longrightarrow> registry_ok (step s e)"
  by (cases e)
     (auto simp: connectionrequest_def express_param_def Let_def registry_ok_queue_next
        registry_ok_close)

lemma registry_ok_run: "registry_ok s \<Longrightarrow> registry_ok (run evs s)"
  unfolding run_def by (induction evs arbitrary: s) (simp_all add: registry_ok_step)

lemma registry_ok_reach: "registry_ok (run evs (initial ws))"
  by (rule registry_ok_run[OF registry_ok_initial])



text \<open>Draining the queue is a run of the transition system.\<close>

lemma queue_drain_run:
  "snd (queue_drain envs s) = run (map (\<lambda>env. QueueNext (fst env) (snd env)) envs) s"
proof (induction envs arbitrary: s)
  case Nil
  then show ?case by (simp add: run_def)
next
  case (Cons env envs)
  obtain oc th where env: "env = (oc, th)" by (cases env)
  show ?case
  proof (cases "queue s")
    case Nil
    have idle: "run (map (\<lambda>env. QueueNext (fst env) (snd env)) es) s = s" for es
      using Nil unfolding run_def
      by (induction es) (auto simp: queue_next_def)
    show ?thesis using Nil env idle[of "env # envs"] by simp
  next
    case (Cons t ts)
    have "snd (queue_drain envs (snd (queue_next oc th s))) =
          run (map (\<lambda>env. QueueNext (fst env) (snd env)) envs) (snd (queue_next oc th s))"
      by (rule Cons.IH)
    then show ?thesis using Cons env by (simp add: split_beta run_def)
  qed
qed

section \<open>The cursor follows the construction attempts\<close>

lemma cursor_ok_initial: "cursor_ok ws (initial ws)"
  by (simp add: cursor_ok_def initial_def)

lemma cursor_ok_queue [simp]: "cursor_ok ws (s\<lparr>queue := q\<rparr>) = cursor_ok ws s"
  by (simp add: cursor_ok_def)

lemma cursor_ok_drawn:
  assumes ok: "cursor_ok ws s" and ne: "ws \<noteq> []"
  shows "cur_worker s = Some (ws ! (length (create_calls s) mod length ws))"
    and "next_idx s = Suc (length (create_calls s)) mod length ws"
proof -
  have i: "nextMediasoupWorkerIdx s = length (create_calls s) mod length ws"
    and w: "mediasoupWorkers s = ws" using ok by (simp_all add: cursor_ok_def)
  have "nextMediasoupWorkerIdx s < length ws" using i ne by simp
  then show "cur_worker s = Some (ws ! (length (create_calls s) mod length ws))"
    using i w by (simp add: cur_worker_def)
  show "next_idx s = Suc (length (create_calls s)) mod length ws"
    using i w by (simp add: next_idx_def mod_Suc)
qed

lemma cursor_ok_attempt:
  assumes ok: "cursor_ok ws s" and ne: "ws \<noteq> []"
    and s': "mediasoupWorkers s' = mediasoupWorkers s"
      "nextMediasoupWorkerIdx s' = next_idx s"
      "create_calls s' = create_calls s @ [cur_worker s]"
  shows "cursor_ok ws s'"
proof -
  have old: "\<And>k. k < length (create_calls s) \<Longrightarrow>
      create_calls s ! k = Some (ws ! (k mod length ws))"
    and w: "mediasoupWorkers s = ws" using ok by (simp_all add: cursor_ok_def)
  show ?thesis
    unfolding cursor_ok_def
    using w old cursor_ok_drawn[OF ok ne] s'
    by (auto simp: nth_append less_Suc_eq)
qed

lemma cursor_ok_getOrCreateRoom:
  assumes ok: "cursor_ok ws s" and ne: "ws \<noteq> []"
  shows "cursor_ok ws (snd (getOrCreateRoom oc k cr s))"
proof (cases "Map_get (rooms s) k")
  case (Some h)
  then show ?thesis using ok by (simp add: getOrCreateRoom_found)
next
  case None
  show ?thesis
  proof (cases oc)
    case (Some e)
    show ?thesis unfolding Some getOrCreateRoom_absent_fail[OF None]
      by (rule cursor_ok_attempt[OF ok ne]) simp_all
  next
    case oc: None
    show ?thesis unfolding oc getOrCreateRoom_absent_ok[OF None]
      by (rule cursor_ok_attempt[OF ok ne]) simp_all
  qed
qed

lemma cursor_ok_close: "cursor_ok ws s \<Longrightarrow> cursor_ok ws (room_emit_close h s)"
  by (simp add: cursor_ok_def room_emit_close_def)

lemma cursor_ok_step: "cursor_ok ws s \<Longrightarrow> ws \<noteq> [] \<Longrightarrow> cursor_ok ws (step s e)"
  by (cases e)
     (auto simp: connectionrequest_def express_param_def Let_def queue_next_def snd_run_task
        cursor_ok_getOrCreateRoom cursor_ok_close split: list.splits)

lemma cursor_ok_run: "cursor_ok ws s \<Longrightarrow> ws \<noteq> [] \<Longrightarrow> cursor_ok ws (run evs s)"
  unfolding run_def by (induction evs arbitrary: s) (simp_all add: cursor_ok_step)

lemma cursor_ok_reach: "ws \<noteq> [] \<Longrightarrow> cursor_ok ws (run evs (initial ws))"
  by (rule cursor_ok_run[OF cursor_ok_initial])

lemma all_built_queue [simp]: "all_built (s\<lparr>queue := q\<rparr>) = all_built s"
  by (simp add: all_built_def)

lemma map_r_worker_closed:
  "map r_worker (xs[h := (xs ! h)\<lparr>r_closed := True\<rparr>]) = map r_worker xs"
proof (cases "h < length xs")
  case True
  then have "(map r_worker xs)[h := r_worker (xs ! h)] = map r_worker xs"
    by (metis list_update_id nth_map)
  then show ?thesis by (simp add: map_update)
next
  case False
  then have "xs[h := (xs ! h)\<lparr>r_closed := True\<rparr>] = xs"
    by (intro list_update_beyond) simp
  then show ?thesis by simp
qed

lemma all_built_getOrCreateRoom:
  "all_built s \<Longrightarrow> all_built (snd (getOrCreateRoom None k cr s))"
  by (cases "Map_get (rooms s) k")
     (simp_all add: getOrCreateRoom_found getOrCreateRoom_absent_ok all_built_def)

lemma all_built_close: "all_built s \<Longrightarrow> all_built (room_emit_close h s)"
  by (simp add: all_built_def room_emit_close_def map_r_worker_closed)

lemma all_built_step: "all_built s \<Longrightarrow> resolves e \<Longrightarrow> all_built (step s e)"
proof (cases e)
  case (QueueNext oc th)
  assume a: "all_built s" "resolves e"
  then have "oc = None" using QueueNext by (cases oc) simp_all
  then show ?thesis using a QueueNext
    by (cases "queue s")
       (simp_all add: queue_next_def snd_run_task all_built_getOrCreateRoom)
qed (auto simp: connectionrequest_def express_param_def Let_def all_built_close)

lemma all_built_run:
  "all_built s \<Longrightarrow> \<forall>e\<in>set evs. resolves e \<Longrightarrow> all_built (run evs s)"
  unfolding run_def by (induction evs arbitrary: s) (simp_all add: all_built_step)

section \<open>While a construction is awaited\<close>

text \<open>
  A task is run here in one step, although \<^verbatim>\<open>getOrCreateRoom\<close> waits for
  \<^verbatim>\<open>Room.create\<close> in the middle. The queue starts no other task before this one has
  settled, so all that can happen meanwhile is a listener pushing a task and a Room
  emitting \<^verbatim>\<open>'close'\<close>. Neither can tell the difference: the outcome is the same as
  if it had happened before the task started. (The Room under construction does not
  exist yet; by \<open>registry_ok\<close> no open Room bears its identifier.)
\<close>

lemma Map_set_absent: "Map_get m k = None \<Longrightarrow> Map_set m k v = m @ [Some (k, v)]"
  by (induction m k v rule: Map_set.induct) (auto split: if_splits)

lemma Map_delete_append:
  "Map_get m k \<noteq> None \<Longrightarrow> Map_delete (m @ es) k = Map_delete m k @ es"
  by (induction m k rule: Map_delete.induct) (auto split: if_splits)

lemma push_during_await:
  "getOrCreateRoom outcome X cr (s\<lparr>queue := q\<rparr>) =
     (fst (getOrCreateRoom outcome X cr s), (snd (getOrCreateRoom outcome X cr s))\<lparr>queue := q\<rparr>)"
  by (cases outcome; cases "Map_get (rooms s) X")
     (simp_all add: getOrCreateRoom_found getOrCreateRoom_absent_ok getOrCreateRoom_absent_fail
        cur_worker_def next_idx_def)

lemma close_during_await:
  assumes ok: "registry_ok s" and absent: "Map_get (rooms s) X = None"
    and h: "h < length (heap s)"
  shows "getOrCreateRoom outcome X cr (room_emit_close h s) =
           (fst (getOrCreateRoom outcome X cr s),
            room_emit_close h (snd (getOrCreateRoom outcome X cr s)))"
proof (cases "r_closed (heap s ! h)")
  case True
  then have "room_emit_close h s = s" by (simp add: room_emit_close_def)
  moreover have "room_emit_close h (snd (getOrCreateRoom outcome X cr s)) =
      snd (getOrCreateRoom outcome X cr s)"
    using True h absent
    by (cases outcome)
       (simp_all add: getOrCreateRoom_absent_ok getOrCreateRoom_absent_fail room_emit_close_def
          nth_append)
  ultimately show ?thesis by simp
next
  case False
  let ?k = "r_roomId (heap s ! h)"
  let ?s1 = "s\<lparr>heap := (heap s)[h := (heap s ! h)\<lparr>r_closed := True\<rparr>],
               rooms := Map_delete (rooms s) ?k\<rparr>"
  have d: "distinct (Map_keys (rooms s))" using ok by (simp add: registry_ok_def)
  have lis: "r_onclose (heap s ! h) = [?k]" using ok h by (simp add: registry_ok_def)
  have regh: "Map_get (rooms s) ?k = Some h" using ok h False by (simp add: registry_ok_def)
  have c: "room_emit_close h s = ?s1" using h False lis by (simp add: room_emit_close_def)
  have absent1: "Map_get (rooms ?s1) X = None" using absent d by (simp add: Map_get_delete)
  have w: "cur_worker ?s1 = cur_worker s" "next_idx ?s1 = next_idx s"
    by (simp_all add: cur_worker_def next_idx_def)
  have kX: "?k \<noteq> X" using regh absent by auto
  have set1: "Map_set (Map_delete (rooms s) ?k) X v = Map_delete (rooms s) ?k @ [Some (X, v)]" for v
    using absent1 by (simp add: Map_set_absent)
  have set2: "Map_delete (Map_set (rooms s) X v) ?k = Map_delete (rooms s) ?k @ [Some (X, v)]" for v
    using absent regh by (simp add: Map_set_absent Map_delete_append)
  show ?thesis
  proof (cases outcome)
    case (Some e)
    show ?thesis unfolding c Some
      using h False lis w
      by (simp add: getOrCreateRoom_absent_fail[OF absent] getOrCreateRoom_absent_fail[OF absent1]
            room_emit_close_def)
  next
    case None
    show ?thesis unfolding c None
      using h False lis w set1 set2
      by (simp add: getOrCreateRoom_absent_ok[OF absent] getOrCreateRoom_absent_ok[OF absent1]
            room_emit_close_def nth_append list_update_append)
  qed
qed

section \<open>One Room per identifier under the queue\<close>

















section \<open>Round-robin assignment\<close>

text \<open>
  C2. With a pool that is not empty, in every reachable state the cursor is below the
  pool size and the \<open>k\<close>-th invocation of \<^verbatim>\<open>Room.create\<close>, counted from 0 and whether
  it resolved or rejected, was given the worker at index \<open>k mod P\<close>. When no
  construction was rejected, the \<open>k\<close>-th Room constructed is bound to the worker at
  index \<open>k mod P\<close>; with a pool of two, rooms A, B, C get the workers 0, 1, 0.
\<close>

theorem round_robin_attempts:
  assumes "ws \<noteq> []"
  shows "nextMediasoupWorkerIdx (run evs (initial ws)) < length ws \<and>
         (\<forall>k<length (create_calls (run evs (initial ws))).
            create_calls (run evs (initial ws)) ! k = Some (ws ! (k mod length ws))) \<and>
         ((\<forall>e\<in>set evs. resolves e) \<longrightarrow>
            (\<forall>k<length (heap (run evs (initial ws))).
               r_worker (heap (run evs (initial ws)) ! k) = Some (ws ! (k mod length ws))))"
proof -
  let ?s = "run evs (initial ws)"
  have ok: "cursor_ok ws ?s" by (rule cursor_ok_run[OF cursor_ok_initial assms])
  have c1: "nextMediasoupWorkerIdx ?s < length ws" using ok assms by (simp add: cursor_ok_def)
  have c2: "\<forall>k<length (create_calls ?s). create_calls ?s ! k = Some (ws ! (k mod length ws))"
    using ok by (simp add: cursor_ok_def)
  have c3: "\<forall>k<length (heap ?s). r_worker (heap ?s ! k) = Some (ws ! (k mod length ws))"
    if r: "\<forall>e\<in>set evs. resolves e"
  proof -
    have "all_built (initial ws)" by (simp add: all_built_def initial_def)
    then have b: "map r_worker (heap ?s) = create_calls ?s"
      using all_built_run[OF _ r] by (simp add: all_built_def)
    show ?thesis
    proof (intro allI impI)
      fix k assume k: "k < length (heap ?s)"
      have "r_worker (heap ?s ! k) = map r_worker (heap ?s) ! k" using k by simp
      also have "\<dots> = create_calls ?s ! k" using b by simp
      also have "\<dots> = Some (ws ! (k mod length ws))"
        using c2 k b by (metis length_map)
      finally show "r_worker (heap ?s ! k) = Some (ws ! (k mod length ws))" .
    qed
  qed
  show ?thesis using c1 c2 c3 by blast
qed

theorem round_robin_attempts_witness:
  "[10, 20] \<noteq> ([] :: worker list) \<and>
   nextMediasoupWorkerIdx (run [ExpressParam ''A'', QueueNext None None,
        ExpressParam ''B'', QueueNext None None,
        ExpressParam ''C'', QueueNext None None] (initial [10, 20])) = 1 \<and>
   map r_roomId (heap (run [ExpressParam ''A'', QueueNext None None,
        ExpressParam ''B'', QueueNext None None,
        ExpressParam ''C'', QueueNext None None] (initial [10, 20])))
     = [QStr ''A'', QStr ''B'', QStr ''C''] \<and>
   map r_worker (heap (run [ExpressParam ''A'', QueueNext None None,
        ExpressParam ''B'', QueueNext None None,
        ExpressParam ''C'', QueueNext None None] (initial [10, 20])))
     = [Some ([10, 20] ! 0), Some ([10, 20] ! 1), Some ([10, 20] ! 0)]"
proof -
  have ne: "[10, 20] \<noteq> ([] :: worker list)" by simp
  show ?thesis
    using round_robin_attempts[OF ne, of "[ExpressParam ''A'', QueueNext None None,
        ExpressParam ''B'', QueueNext None None,
        ExpressParam ''C'', QueueNext None None]"]
    by (simp add: eval_defs)
qed

text \<open>
  A rejected construction has drawn its worker all the same: after the construction of
  room A is rejected, room B, the first Room to exist, is bound to the worker at index 1.
\<close>

theorem round_robin_counterexample:
  "length (heap (run [ExpressParam ''A'',
        QueueNext (Some \<lparr>e_name = ''Error'', e_message = ''router'', e_status = None\<rparr>) None,
        ExpressParam ''B'', QueueNext None None] (initial [10, 20]))) = 1 \<and>
   r_roomId (heap (run [ExpressParam ''A'',
        QueueNext (Some \<lparr>e_name = ''Error'', e_message = ''router'', e_status = None\<rparr>) None,
        ExpressParam ''B'', QueueNext None None] (initial [10, 20])) ! 0) = QStr ''B'' \<and>
   r_worker (heap (run [ExpressParam ''A'',
        QueueNext (Some \<lparr>e_name = ''Error'', e_message = ''router'', e_status = None\<rparr>) None,
        ExpressParam ''B'', QueueNext None None] (initial [10, 20])) ! 0)
     \<noteq> Some ([10, 20] ! (0 mod length [10, 20 :: worker]))"
  by (simp add: eval_defs)

section \<open>Closing a room\<close>

text \<open>
  C3. In a reachable state where \<open>X\<close> is registered to the Room \<open>h\<close>, once \<open>h\<close> has
  emitted \<^verbatim>\<open>'close'\<close> the identifier \<open>X\<close> is absent from the Registry. The next
  \<^verbatim>\<open>getOrCreateRoom\<close> for \<open>X\<close> invokes \<^verbatim>\<open>Room.create\<close> with the worker under the
  cursor, whatever the construction answers; when it succeeds the caller gets a new Room
  object, different from \<open>h\<close>, open, registered under \<open>X\<close> and bound to that worker.
\<close>

theorem close_then_fresh_room:
  assumes reach: "s = run evs (initial ws)" and ne: "ws \<noteq> []"
    and reg: "Map_get (rooms s) X = Some h"
    and cl: "s1 = room_emit_close h s"
  shows "r_closed (heap s1 ! h) \<and> Map_get (rooms s1) X = None \<and>
         fst (getOrCreateRoom None X cr s1) = Inr (length (heap s)) \<and>
         h < length (heap s) \<and>
         Map_get (rooms (snd (getOrCreateRoom None X cr s1))) X = Some (length (heap s)) \<and>
         r_worker (heap (snd (getOrCreateRoom None X cr s1)) ! length (heap s)) =
           Some (ws ! (length (create_calls s) mod length ws)) \<and>
         \<not> r_closed (heap (snd (getOrCreateRoom None X cr s1)) ! length (heap s)) \<and>
         create_calls (snd (getOrCreateRoom outcome X cr s1)) =
           create_calls s @ [Some (ws ! (length (create_calls s) mod length ws))]"
proof -
  have ok: "registry_ok s" unfolding reach by (rule registry_ok_reach)
  have cok: "cursor_ok ws s" unfolding reach by (rule cursor_ok_reach[OF ne])
  have h: "h < length (heap s)" "\<not> r_closed (heap s ! h)" "r_roomId (heap s ! h) = X"
    using ok reg by (auto simp: registry_ok_def)
  have lis: "r_onclose (heap s ! h) = [X]" using ok h by (auto simp: registry_ok_def)
  have d: "distinct (Map_keys (rooms s))" using ok by (simp add: registry_ok_def)
  have s1: "s1 = s\<lparr>heap := (heap s)[h := (heap s ! h)\<lparr>r_closed := True\<rparr>],
                   rooms := Map_delete (rooms s) X\<rparr>"
    unfolding cl using h lis by (simp add: room_emit_close_def)
  have absent: "Map_get (rooms s1) X = None" unfolding s1 using d by (simp add: Map_get_delete)
  have cok1: "cursor_ok ws s1" unfolding cl by (rule cursor_ok_close[OF cok])
  have cc: "create_calls s1 = create_calls s" and len: "length (heap s1) = length (heap s)"
    unfolding s1 by simp_all
  have w: "cur_worker s1 = Some (ws ! (length (create_calls s) mod length ws))"
    using cursor_ok_drawn(1)[OF cok1 ne] cc by simp
  have closed: "r_closed (heap s1 ! h)" unfolding s1 using h by simp
  have any: "create_calls (snd (getOrCreateRoom outcome X cr s1)) =
           create_calls s @ [Some (ws ! (length (create_calls s) mod length ws))]"
    using w cc
    by (cases outcome)
       (simp_all add: getOrCreateRoom_absent_ok[OF absent] getOrCreateRoom_absent_fail[OF absent])
  have new: "(heap s1 @ [x]) ! length (heap s) = x" for x
    using len by (metis nth_append_length)
  show ?thesis
    using closed absent h(1) w len any new
    by (simp add: getOrCreateRoom_absent_ok[OF absent] Map_get_set)
qed

theorem close_then_fresh_room_witness:
  "Map_get (rooms (run [ExpressParam ''A'', QueueNext None None,
        ExpressParam ''B'', QueueNext None None] (initial [10, 20, 30]))) (QStr ''A'') = Some 0 \<and>
   Map_get (rooms (room_emit_close 0 (run [ExpressParam ''A'', QueueNext None None,
        ExpressParam ''B'', QueueNext None None] (initial [10, 20, 30])))) (QStr ''A'') = None \<and>
   fst (getOrCreateRoom None (QStr ''A'') (Num 1)
      (room_emit_close 0 (run [ExpressParam ''A'', QueueNext None None,
        ExpressParam ''B'', QueueNext None None] (initial [10, 20, 30])))) = Inr 2 \<and>
   r_worker (heap (snd (getOrCreateRoom None (QStr ''A'') (Num 1)
      (room_emit_close 0 (run [ExpressParam ''A'', QueueNext None None,
        ExpressParam ''B'', QueueNext None None] (initial [10, 20, 30])))) ) ! 2) = Some 30 \<and>
   r_worker (heap (run [ExpressParam ''A'', QueueNext None None,
        ExpressParam ''B'', QueueNext None None] (initial [10, 20, 30])) ! 0) = Some 10"
  (is "Map_get (rooms ?s) ?X = Some 0 \<and> _")
proof -
  have ne: "[10, 20, 30] \<noteq> ([] :: worker list)" by simp
  have s: "?s = \<lparr>rooms = [Some (QStr ''A'', 0), Some (QStr ''B'', 1)],
      mediasoupWorkers = [10, 20, 30], nextMediasoupWorkerIdx = 2, queue = [],
      heap = [\<lparr>r_worker = Some 10, r_roomId = QStr ''A'', r_replicas = Num 0,
                r_closed = False, r_onclose = [QStr ''A'']\<rparr>,
              \<lparr>r_worker = Some 20, r_roomId = QStr ''B'', r_replicas = Num 0,
                r_closed = False, r_onclose = [QStr ''B'']\<rparr>],
      create_calls = [Some 10, Some 20]\<rparr>"
    by (simp add: eval_defs)
  have reg: "Map_get (rooms ?s) ?X = Some 0" by (simp add: s)
  show ?thesis
    using close_then_fresh_room[OF refl ne reg refl, of "Num 1" None]
    unfolding s by (simp add: eval_defs)
qed

section \<open>The signaling ingress\<close>

text \<open>
  C4. The listener itself never accepts. Inside the queued task, \<^verbatim>\<open>accept\<close> is among
  the callbacks invoked only if \<^verbatim>\<open>getOrCreateRoom\<close> returned a Room, which is then
  registered under the requested identifier, and \<^verbatim>\<open>accept\<close> comes first, followed by
  the hand-over to that Room. If \<^verbatim>\<open>getOrCreateRoom\<close> fails with an error, the only
  callback invoked is \<^verbatim>\<open>reject\<close> with that error.
\<close>

theorem accept_only_after_resolution:
  "Accept \<notin> set (fst (connectionrequest u s)) \<and>
   (Accept \<in> set (fst (run_task outcome thrown (SignalingTask roomId cr peerId) s)) \<longrightarrow>
      (\<exists>room. fst (getOrCreateRoom outcome roomId cr s) = Inr room \<and>
         Map_get (rooms (snd (run_task outcome thrown (SignalingTask roomId cr peerId) s))) roomId
           = Some room \<and>
         take 2 (fst (run_task outcome thrown (SignalingTask roomId cr peerId) s)) =
           [Accept, HandleProtooConnection room peerId])) \<and>
   (\<forall>e. fst (getOrCreateRoom outcome roomId cr s) = Inl e \<longrightarrow>
      fst (run_task outcome thrown (SignalingTask roomId cr peerId) s) = [Reject_error e])"
proof -
  have sync: "Accept \<notin> set (fst (connectionrequest u s))"
    by (simp add: connectionrequest_def Let_def)
  have reg: "Map_get (rooms (snd (getOrCreateRoom outcome roomId cr s))) roomId = Some room"
    if "fst (getOrCreateRoom outcome roomId cr s) = Inr room" for room
  proof (cases "Map_get (rooms s) roomId")
    case (Some h)
    then show ?thesis using that by (simp add: getOrCreateRoom_found)
  next
    case None
    then show ?thesis using that
      by (cases outcome)
         (simp_all add: getOrCreateRoom_absent_ok getOrCreateRoom_absent_fail Map_get_set)
  qed
  show ?thesis
  proof (cases "getOrCreateRoom outcome roomId cr s")
    case (Pair r s')
    show ?thesis
    proof (cases r)
      case (Inl e)
      then show ?thesis using sync Pair by simp
    next
      case (Inr room)
      then have "Map_get (rooms s') roomId = Some room" using reg[of room] Pair by simp
      then show ?thesis using sync Pair Inr by (cases thrown) simp_all
    qed
  qed
qed

theorem accept_only_after_resolution_witness:
  "fst (run_task (Some \<lparr>e_name = ''Error'', e_message = ''router'', e_status = None\<rparr>) None
         (SignalingTask (QStr ''R1'') (Num 0) (QStr ''alice'')) (initial [10, 20])) =
     [Reject_error \<lparr>e_name = ''Error'', e_message = ''router'', e_status = None\<rparr>] \<and>
   fst (run_task None None
         (SignalingTask (QStr ''R1'') (Num 0) (QStr ''alice'')) (initial [10, 20])) =
     [Accept, HandleProtooConnection 0 (QStr ''alice'')] \<and>
   fst (getOrCreateRoom None (QStr ''R1'') (Num 0) (initial [10, 20])) = Inr 0"
  using accept_only_after_resolution[of
      "\<lparr>q_roomId = Some (QStr ''R1''), q_peerId = Some (QStr ''alice''), q_consumerReplicas = Num 0\<rparr>"
      "initial [10, 20]" None None "QStr ''R1''" "Num 0" "QStr ''alice''"]
    accept_only_after_resolution[of
      "\<lparr>q_roomId = Some (QStr ''R1''), q_peerId = Some (QStr ''alice''), q_consumerReplicas = Num 0\<rparr>"
      "initial [10, 20]" "Some \<lparr>e_name = ''Error'', e_message = ''router'', e_status = None\<rparr>"
      None "QStr ''R1''" "Num 0" "QStr ''alice''"]
  by (simp add: eval_defs)

text \<open>
  C5. A connection request whose \<^verbatim>\<open>roomId\<close> or \<^verbatim>\<open>peerId\<close> is missing (or falsy, as the
  empty string is) is rejected with status 400 and the state of the server, that is the
  Registry, the cursor, the pending tasks and the Room objects, is the same as before.
\<close>

theorem connectionrequest_missing_ids:
  assumes "\<not> truthy (q_roomId u) \<or> \<not> truthy (q_peerId u)"
  shows "connectionrequest u s =
           ([Reject 400 ''Connection request without roomId and/or peerId''], s)"
  using assms by (auto simp: connectionrequest_def)

theorem connectionrequest_missing_ids_witness:
  "\<not> truthy (q_peerId \<lparr>q_roomId = Some (QStr ''R1''), q_peerId = None, q_consumerReplicas = Num 1\<rparr>) \<and>
   connectionrequest \<lparr>q_roomId = Some (QStr ''R1''), q_peerId = None, q_consumerReplicas = Num 1\<rparr>
       (initial [10, 20]) =
     ([Reject 400 ''Connection request without roomId and/or peerId''], initial [10, 20])"
proof -
  have h: "\<not> truthy (q_roomId \<lparr>q_roomId = Some (QStr ''R1''), q_peerId = None, q_consumerReplicas = Num 1\<rparr>) \<or>
           \<not> truthy (q_peerId \<lparr>q_roomId = Some (QStr ''R1''), q_peerId = None, q_consumerReplicas = Num 1\<rparr>)"
    by simp
  show ?thesis using connectionrequest_missing_ids[OF h, of "initial [10, 20]"] by simp
qed

section \<open>The broadcaster ingress\<close>

text \<open>
  C6. The \<^verbatim>\<open>roomId\<close> parameter of a broadcaster request pushes one task on the queue
  and does nothing else; with nothing pending before it, the queue runs that task next.
  The task resolves the room with \<^verbatim>\<open>consumerReplicas = 0\<close> and, if the resolution
  succeeds, stores the Room on the request and calls \<^verbatim>\<open>next()\<close>. For an identifier that
  is not registered, and a construction that succeeds, the request gets a new Room,
  created with \<^verbatim>\<open>consumerReplicas = 0\<close> and registered under the identifier.
\<close>

theorem broadcaster_request_resolves_room:
  "express_param roomId s = ([], s\<lparr>queue := queue s @ [BroadcasterTask (QStr roomId)]\<rparr>) \<and>
   (queue s = [] \<longrightarrow>
      queue_next outcome thrown (snd (express_param roomId s)) =
        run_task outcome thrown (BroadcasterTask (QStr roomId)) s) \<and>
   run_task outcome None (BroadcasterTask (QStr roomId)) s =
     (case getOrCreateRoom outcome (QStr roomId) (Num 0) s of
        (Inl e, s') \<Rightarrow> ([Next_error e], s')
      | (Inr room, s') \<Rightarrow> ([Req_room room, Next], s')) \<and>
   (Map_get (rooms s) (QStr roomId) = None \<longrightarrow>
      fst (run_task None None (BroadcasterTask (QStr roomId)) s) =
        [Req_room (length (heap s)), Next] \<and>
      length (heap (snd (run_task None None (BroadcasterTask (QStr roomId)) s))) =
        Suc (length (heap s)) \<and>
      Map_get (rooms (snd (run_task None None (BroadcasterTask (QStr roomId)) s))) (QStr roomId) =
        Some (length (heap s)) \<and>
      r_replicas (heap (snd (run_task None None (BroadcasterTask (QStr roomId)) s)) ! length (heap s))
        = Num 0)"
proof -
  have a: "express_param roomId s = ([], s\<lparr>queue := queue s @ [BroadcasterTask (QStr roomId)]\<rparr>)"
    by (simp add: express_param_def)
  have b: "queue_next outcome thrown (snd (express_param roomId s)) =
        run_task outcome thrown (BroadcasterTask (QStr roomId)) s" if "queue s = []"
  proof -
    have e: "s\<lparr>queue := []\<rparr> = s" using that by simp
    show ?thesis using that by (simp add: express_param_def queue_next_def e)
  qed
  have c: "run_task outcome None (BroadcasterTask (QStr roomId)) s =
     (case getOrCreateRoom outcome (QStr roomId) (Num 0) s of
        (Inl e, s') \<Rightarrow> ([Next_error e], s')
      | (Inr room, s') \<Rightarrow> ([Req_room room, Next], s'))"
    by (simp split: prod.splits sum.splits)
  have d: "fst (run_task None None (BroadcasterTask (QStr roomId)) s) =
        [Req_room (length (heap s)), Next] \<and>
      length (heap (snd (run_task None None (BroadcasterTask (QStr roomId)) s))) =
        Suc (length (heap s)) \<and>
      Map_get (rooms (snd (run_task None None (BroadcasterTask (QStr roomId)) s))) (QStr roomId) =
        Some (length (heap s)) \<and>
      r_replicas (heap (snd (run_task None None (BroadcasterTask (QStr roomId)) s)) ! length (heap s))
        = Num 0" if "Map_get (rooms s) (QStr roomId) = None"
    using that by (simp add: getOrCreateRoom_absent_ok Map_get_set)
  show ?thesis using a b c d by blast
qed

theorem broadcaster_request_resolves_room_witness:
  "queue (initial [10, 20]) = [] \<and>
   Map_get (rooms (initial [10, 20])) (QStr ''R9'') = None \<and>
   fst (queue_next None None (snd (express_param ''R9'' (initial [10, 20])))) = [Req_room 0, Next] \<and>
   Map_get (rooms (snd (queue_next None None (snd (express_param ''R9'' (initial [10, 20]))))))
     (QStr ''R9'') = Some 0 \<and>
   r_replicas (heap (snd (queue_next None None (snd (express_param ''R9'' (initial [10, 20]))))) ! 0)
     = Num 0"
  using broadcaster_request_resolves_room[of "''R9''" "initial [10, 20]" None None]
  by (simp add: eval_defs)

text \<open>
  C7. Take an error that reaches the error handler with a message made of tabs and
  characters in 0x20..0x7e and with either no truthy \<^verbatim>\<open>status\<close> or a \<^verbatim>\<open>status\<close>
  from 400 to 999.
  The status of the response is the \<^verbatim>\<open>status\<close> the error carries when that is
  truthy; otherwise it is 400 when the name of the error is \<^verbatim>\<open>TypeError\<close> and 500 when
  it is not. The body of the response is \<^verbatim>\<open>String(error)\<close>, and empty for a
  \<^verbatim>\<open>HEAD\<close> request.
\<close>

theorem error_handler_status:
  assumes "valid_reason (e_message error)"
    and "e_status error = None \<or> e_status error = Some 0 \<or>
         (\<exists>st. e_status error = Some st \<and> 400 \<le> st \<and> st \<le> 999)"
  shows "error_handler head (Some error) =
           Sent (case e_status error of
                   None \<Rightarrow> if e_name error = ''TypeError'' then 400 else 500
                 | Some st \<Rightarrow> if st \<noteq> 0 then st
                              else if e_name error = ''TypeError'' then 400 else 500)
                (if head then [] else String_error error)"
proof -
  have "\<not> invalid_reason (e_message error)"
    using assms(1) by (auto simp: valid_reason_def invalid_reason_def list_all_iff list_ex_iff)
  then show ?thesis using assms by (auto simp: error_handler_def Let_def)
qed

theorem error_handler_status_witness:
  "valid_reason ''missing body.id'' \<and>
   error_handler False (Some \<lparr>e_name = ''TypeError'', e_message = ''missing body.id'', e_status = None\<rparr>)
     = Sent 400 ''TypeError: missing body.id'' \<and>
   error_handler False (Some \<lparr>e_name = ''Error'', e_message = ''gone'', e_status = Some 404\<rparr>)
     = Sent 404 ''Error: gone'' \<and>
   error_handler True (Some \<lparr>e_name = ''Error'', e_message = ''gone'', e_status = Some 0\<rparr>)
     = Sent 500 []"
proof -
  have v1: "valid_reason (e_message \<lparr>e_name = ''TypeError'', e_message = ''missing body.id'', e_status = None\<rparr>)"
    and v2: "valid_reason (e_message \<lparr>e_name = ''Error'', e_message = ''gone'', e_status = Some 404\<rparr>)"
    and v3: "valid_reason (e_message \<lparr>e_name = ''Error'', e_message = ''gone'', e_status = Some 0\<rparr>)"
    by (simp_all add: valid_reason_def)
  have s1: "e_status \<lparr>e_name = ''TypeError'', e_message = ''missing body.id'', e_status = None\<rparr> = None \<or>
      e_status \<lparr>e_name = ''TypeError'', e_message = ''missing body.id'', e_status = None\<rparr> = Some 0 \<or>
      (\<exists>st. e_status \<lparr>e_name = ''TypeError'', e_message = ''missing body.id'', e_status = None\<rparr> = Some st
          \<and> 400 \<le> st \<and> st \<le> 999)" by simp
  have s2: "e_status \<lparr>e_name = ''Error'', e_message = ''gone'', e_status = Some 404\<rparr> = None \<or>
      e_status \<lparr>e_name = ''Error'', e_message = ''gone'', e_status = Some 404\<rparr> = Some 0 \<or>
      (\<exists>st. e_status \<lparr>e_name = ''Error'', e_message = ''gone'', e_status = Some 404\<rparr> = Some st
          \<and> 400 \<le> st \<and> st \<le> 999)" by simp
  have s3: "e_status \<lparr>e_name = ''Error'', e_message = ''gone'', e_status = Some 0\<rparr> = None \<or>
      e_status \<lparr>e_name = ''Error'', e_message = ''gone'', e_status = Some 0\<rparr> = Some 0 \<or>
      (\<exists>st. e_status \<lparr>e_name = ''Error'', e_message = ''gone'', e_status = Some 0\<rparr> = Some st
          \<and> 400 \<le> st \<and> st \<le> 999)" by simp
  show ?thesis
    using v1 error_handler_status[OF v1 s1, of False] error_handler_status[OF v2 s2, of False]
      error_handler_status[OF v3 s3, of True]
    by (simp add: String_error_def)
qed

text \<open>An error that is no \<^verbatim>\<open>TypeError\<close> and carries the status 404 is answered with 404.\<close>

theorem error_handler_status_counterexample:
  "error_handler False (Some \<lparr>e_name = ''Error'', e_message = ''gone'', e_status = Some 404\<rparr>)
     = Sent 404 ''Error: gone''"
  by (simp add: error_handler_def String_error_def valid_reason_def invalid_reason_def)

text \<open>
  Outside these errors the handler does not answer as it means to: it throws exactly
  when Node refuses the message or the status carried is truthy and outside 100..999,
  as for the status 1000 and for a message with a line feed.
\<close>

lemma error_handler_throws_iff:
  "error_handler head (Some error) = Thrown \<longleftrightarrow>
     invalid_reason (e_message error) \<or>
     (\<exists>st. e_status error = Some st \<and> st \<noteq> 0 \<and> (st < 100 \<or> 999 < st))"
  by (cases "e_status error") (auto simp: error_handler_def Let_def)

lemma error_handler_status_out_of_range:
  "error_handler head (Some \<lparr>e_name = ''Error'', e_message = ''big'', e_status = Some 1000\<rparr>) = Thrown"
  by (simp add: error_handler_def)

lemma error_handler_line_feed:
  "error_handler head
     (Some \<lparr>e_name = ''TypeError'', e_message = ''bad'' @ [CHR 0x0A] @ ''line'', e_status = None\<rparr>)
     = Thrown"
  by (simp add: error_handler_def invalid_reason_def)

section \<open>Joining an existing room\<close>

text \<open>
  C8. For a \<^verbatim>\<open>roomId\<close> present in the Registry, \<^verbatim>\<open>getOrCreateRoom\<close> returns the
  registered Room and the whole state is as before: no worker is drawn, \<^verbatim>\<open>Room.create\<close>
  is not invoked, the Registry and the Room objects are untouched, whatever
  \<^verbatim>\<open>consumerReplicas\<close> is and whatever a construction would have answered.
\<close>

theorem getOrCreateRoom_present:
  assumes "Map_get (rooms s) roomId = Some room"
  shows "getOrCreateRoom outcome roomId consumerReplicas s = (Inr room, s)"
  using assms by (simp add: getOrCreateRoom_def)

theorem getOrCreateRoom_present_witness:
  "Map_get (rooms (run [ExpressParam ''A'', QueueNext None None] (initial [10, 20]))) (QStr ''A'')
     = Some 0 \<and>
   getOrCreateRoom (Some \<lparr>e_name = ''Error'', e_message = ''router'', e_status = None\<rparr>)
       (QStr ''A'') (Num 3) (run [ExpressParam ''A'', QueueNext None None] (initial [10, 20])) =
     (Inr 0, run [ExpressParam ''A'', QueueNext None None] (initial [10, 20]))"
proof -
  have h: "Map_get (rooms (run [ExpressParam ''A'', QueueNext None None] (initial [10, 20])))
      (QStr ''A'') = Some 0"
    by (simp add: eval_defs)
  show ?thesis
    using h getOrCreateRoom_present[OF h,
        of "Some \<lparr>e_name = ''Error'', e_message = ''router'', e_status = None\<rparr>" "Num 3"]
    by simp
qed

section \<open>The status report passes over closed rooms\<close>

lemma closes_Nil [simp]: "closes [] s = s"
  by (simp add: closes_def)

lemma closes_Cons [simp]: "closes (h # hs) s = closes hs (room_emit_close h s)"
  by (simp add: closes_def)

lemma registry_ok_closes: "registry_ok s \<Longrightarrow> registry_ok (closes hs s)"
  by (induction hs arbitrary: s) (simp_all add: registry_ok_close)

lemma length_Map_delete [simp]: "length (Map_delete m k) = length m"
  by (induction m k rule: Map_delete.induct) simp_all

lemma length_foldl_Map_delete [simp]: "length (foldl Map_delete m ks) = length m"
  by (induction ks arbitrary: m) simp_all

lemma Map_delete_nth:
  "Map_delete m k ! j = Some e \<Longrightarrow> j < length m \<Longrightarrow> m ! j = Some e"
  by (induction m k arbitrary: j rule: Map_delete.induct)
     (auto simp: nth_Cons' split: if_splits)

lemma foldl_Map_delete_nth:
  "foldl Map_delete m ks ! j = Some e \<Longrightarrow> j < length m \<Longrightarrow> m ! j = Some e"
proof (induction ks arbitrary: m)
  case Nil
  then show ?case by simp
next
  case (Cons k ks)
  have "Map_delete m k ! j = Some e" using Cons.prems by (rule_tac Cons.IH) simp_all
  then show ?case using Cons.prems(2) by (rule Map_delete_nth)
qed

lemma close_shape:
  "length (rooms (room_emit_close h s)) = length (rooms s)"
  "length (heap (room_emit_close h s)) = length (heap s)"
  by (simp_all add: room_emit_close_def)

lemma closes_shape:
  "length (rooms (closes hs s)) = length (rooms s)"
  "length (heap (closes hs s)) = length (heap s)"
  by (induction hs arbitrary: s) (simp_all add: close_shape)

lemma close_nth:
  "rooms (room_emit_close h s) ! j = Some e \<Longrightarrow> j < length (rooms s) \<Longrightarrow> rooms s ! j = Some e"
proof (cases "h < length (heap s) \<and> \<not> r_closed (heap s ! h)")
  case True
  assume a: "rooms (room_emit_close h s) ! j = Some e" "j < length (rooms s)"
  have "foldl Map_delete (rooms s) (r_onclose (heap s ! h)) ! j = Some e"
    using a(1) True by (simp add: room_emit_close_def)
  then show ?thesis using a(2) by (rule foldl_Map_delete_nth)
next
  case False
  assume "rooms (room_emit_close h s) ! j = Some e"
  then show ?thesis using False by (simp add: room_emit_close_def)
qed

lemma closes_nth:
  "rooms (closes hs s) ! j = Some e \<Longrightarrow> j < length (rooms s) \<Longrightarrow> rooms s ! j = Some e"
proof (induction hs arbitrary: s)
  case Nil
  then show ?case by simp
next
  case (Cons h hs)
  have "rooms (room_emit_close h s) ! j = Some e"
    using Cons.prems by (rule_tac Cons.IH) (simp_all add: close_shape)
  then show ?case using Cons.prems(2) by (rule close_nth)
qed

lemma close_keeps_closed:
  "h < length (heap s) \<Longrightarrow> r_closed (heap s ! h) \<Longrightarrow> r_closed (heap (room_emit_close h' s) ! h)"
  by (simp add: room_emit_close_def nth_list_update)

lemma close_closes:
  "h < length (heap s) \<Longrightarrow> r_closed (heap (room_emit_close h s) ! h)"
  by (simp add: room_emit_close_def)

lemma closes_keeps_closed:
  "h < length (heap s) \<Longrightarrow> r_closed (heap s ! h) \<Longrightarrow> r_closed (heap (closes hs s) ! h)"
  by (induction hs arbitrary: s) (simp_all add: close_keeps_closed close_shape)

lemma closes_closes:
  "h \<in> set hs \<Longrightarrow> h < length (heap s) \<Longrightarrow> r_closed (heap (closes hs s) ! h)"
proof (induction hs arbitrary: s)
  case Nil
  then show ?case by simp
next
  case (Cons a hs)
  show ?case
  proof (cases "h = a")
    case True
    then show ?thesis using Cons.prems(2)
      by (simp add: closes_keeps_closed close_closes close_shape)
  next
    case False
    then show ?thesis using Cons by (simp add: close_shape)
  qed
qed

lemma nth_Map_keys:
  "j < length m \<Longrightarrow> m ! j = Some (k, v) \<Longrightarrow> k \<in> set (Map_keys m)"
proof (induction m arbitrary: j rule: Map_keys.induct)
  case 1
  then show ?case by simp
next
  case (2 es)
  show ?case
  proof (cases j)
    case 0
    then show ?thesis using "2.prems" by simp
  next
    case (Suc n)
    then have "k \<in> set (Map_keys es)" using "2.prems" by (intro "2.IH"[of n]) simp_all
    then show ?thesis by simp
  qed
next
  case (3 k' v' es)
  show ?case
  proof (cases j)
    case 0
    then show ?thesis using "3.prems" by simp
  next
    case (Suc n)
    then have "k \<in> set (Map_keys es)" using "3.prems" by (intro "3.IH"[of n]) simp_all
    then show ?thesis by simp
  qed
qed

lemma Map_get_nth:
  "distinct (Map_keys m) \<Longrightarrow> j < length m \<Longrightarrow> m ! j = Some (k, v) \<Longrightarrow> Map_get m k = Some v"
proof (induction m arbitrary: j rule: Map_keys.induct)
  case 1
  then show ?case by simp
next
  case (2 es)
  show ?case
  proof (cases j)
    case 0
    then show ?thesis using "2.prems" by simp
  next
    case (Suc n)
    then have "Map_get es k = Some v" using "2.prems" by (intro "2.IH"[of n]) simp_all
    then show ?thesis by simp
  qed
next
  case (3 k' v' es)
  show ?case
  proof (cases j)
    case 0
    then show ?thesis using "3.prems" by simp
  next
    case (Suc n)
    have e: "n < length es" "es ! n = Some (k, v)" using "3.prems" Suc by simp_all
    have "k \<in> set (Map_keys es)" by (rule nth_Map_keys[OF e])
    then have ne: "k' \<noteq> k" using "3.prems"(1) by auto
    have d: "distinct (Map_keys es)" using "3.prems"(1) by simp
    have "Map_get es k = Some v" by (rule "3.IH"[OF d e])
    then show ?thesis using ne by simp
  qed
qed

lemma nth_key_unique:
  "distinct (Map_keys m) \<Longrightarrow> j < length m \<Longrightarrow> j' < length m \<Longrightarrow>
   m ! j = Some (k, v) \<Longrightarrow> m ! j' = Some (k, v') \<Longrightarrow> j = j'"
proof (induction m arbitrary: j j' rule: Map_keys.induct)
  case 1
  then show ?case by simp
next
  case (2 es)
  obtain n where n: "j = Suc n" using "2.prems"(4) by (cases j) simp_all
  obtain n' where n': "j' = Suc n'" using "2.prems"(5) by (cases j') simp_all
  have "n = n'" using "2.prems" n n' by (intro "2.IH"[of n n']) simp_all
  then show ?case using n n' by simp
next
  case (3 k' v'' es)
  have d: "distinct (Map_keys es)" and nk: "k' \<notin> set (Map_keys es)"
    using "3.prems"(1) by simp_all
  have in_es: "k' \<noteq> k" if "n < length es" "es ! n = Some (k, w)" for n w
    using nth_Map_keys[OF that] nk by auto
  show ?case
  proof (cases j)
    case 0
    then have kk: "k' = k" using "3.prems"(4) by simp
    show ?thesis
    proof (cases j')
      case 0
      then show ?thesis using \<open>j = 0\<close> by simp
    next
      case (Suc n')
      then have "n' < length es" "es ! n' = Some (k, v')" using "3.prems"(3,5) by simp_all
      then have "k' \<noteq> k" by (rule in_es)
      then show ?thesis using kk by simp
    qed
  next
    case (Suc n)
    then have en: "n < length es" "es ! n = Some (k, v)" using "3.prems"(2,4) by simp_all
    then have ne: "k' \<noteq> k" by (rule in_es)
    show ?thesis
    proof (cases j')
      case 0
      then show ?thesis using ne "3.prems"(5) by simp
    next
      case (Suc n')
      then have en': "n' < length es" "es ! n' = Some (k, v')" using "3.prems"(3,5) by simp_all
      have "n = n'" by (rule "3.IH"[OF d en(1) en'(1) en(2) en'(2)])
      then show ?thesis using Suc \<open>j = Suc n\<close> by simp
    qed
  qed
qed

lemma Map_delete_other:
  "j < length m \<Longrightarrow> m ! j = Some (k, v) \<Longrightarrow> k \<noteq> k' \<Longrightarrow> Map_delete m k' ! j = Some (k, v)"
proof (induction m k' arbitrary: j rule: Map_delete.induct)
  case (1 k')
  then show ?case by simp
next
  case (2 es k')
  then show ?case by (cases j) simp_all
next
  case (3 k'' v'' es k')
  then show ?case by (cases j) auto
qed

lemma registered_not_closing:
  assumes ok: "registry_ok s"
    and at: "j < length (rooms s)" "rooms (closes hs s) ! j = Some (k, room)"
  shows "room \<notin> set hs" and "room < length (heap (closes hs s))"
    and "\<not> r_closed (heap (closes hs s) ! room)" and "rooms s ! j = Some (k, room)"
proof -
  let ?s1 = "closes hs s"
  have ok1: "registry_ok ?s1" by (rule registry_ok_closes[OF ok])
  have j1: "j < length (rooms ?s1)" using at(1) by (simp add: closes_shape)
  have d1: "distinct (Map_keys (rooms ?s1))" using ok1 by (simp add: registry_ok_def)
  have g: "Map_get (rooms ?s1) k = Some room" by (rule Map_get_nth[OF d1 j1 at(2)])
  then have r: "room < length (heap ?s1)" "\<not> r_closed (heap ?s1 ! room)"
    using ok1 by (auto simp: registry_ok_def)
  show "room < length (heap ?s1)" "\<not> r_closed (heap ?s1 ! room)" by (rule r)+
  show "room \<notin> set hs"
  proof
    assume "room \<in> set hs"
    moreover have "room < length (heap s)" using r(1) by (simp add: closes_shape)
    ultimately have "r_closed (heap ?s1 ! room)" by (rule closes_closes)
    then show False using r(2) by simp
  qed
  show "rooms s ! j = Some (k, room)" by (rule closes_nth[OF at(2) at(1)])
qed

lemma close_keeps_entry:
  assumes ok: "registry_ok s"
    and at: "j < length (rooms s)" "rooms s ! j = Some (k, room)" and ne: "room \<noteq> h"
  shows "rooms (room_emit_close h s) ! j = Some (k, room)"
proof (cases "h < length (heap s) \<and> \<not> r_closed (heap s ! h)")
  case False
  then show ?thesis using at by (auto simp: room_emit_close_def)
next
  case True
  let ?kh = "r_roomId (heap s ! h)"
  have d: "distinct (Map_keys (rooms s))" using ok by (simp add: registry_ok_def)
  have lis: "r_onclose (heap s ! h) = [?kh]" using ok True by (simp add: registry_ok_def)
  have regh: "Map_get (rooms s) ?kh = Some h" using ok True by (simp add: registry_ok_def)
  have "Map_get (rooms s) k = Some room" by (rule Map_get_nth[OF d at])
  then have "k \<noteq> ?kh" using regh ne by auto
  then have "Map_delete (rooms s) ?kh ! j = Some (k, room)" by (rule Map_delete_other[OF at])
  then show ?thesis using True lis by (simp add: room_emit_close_def)
qed

lemma closes_keeps_entry:
  assumes "registry_ok s" "j < length (rooms s)" "rooms s ! j = Some (k, room)" "room \<notin> set hs"
  shows "rooms (closes hs s) ! j = Some (k, room)"
  using assms
proof (induction hs arbitrary: s)
  case Nil
  then show ?case by simp
next
  case (Cons h hs)
  have ne: "room \<noteq> h" using Cons.prems(4) by auto
  have "rooms (closes hs (room_emit_close h s)) ! j = Some (k, room)"
  proof (rule Cons.IH)
    show "registry_ok (room_emit_close h s)" by (rule registry_ok_close[OF Cons.prems(1)])
    show "j < length (rooms (room_emit_close h s))" using Cons.prems(2) by (simp add: close_shape)
    show "rooms (room_emit_close h s) ! j = Some (k, room)"
      by (rule close_keeps_entry[OF Cons.prems(1,2,3) ne])
    show "room \<notin> set hs" using Cons.prems(4) by simp
  qed
  then show ?case by simp
qed

lemma logStatus_loop_skips:
  assumes fine: "\<forall>r. \<not> r_closed r \<longrightarrow> logStatus r = None"
    and ok: "registry_ok s"
  shows "\<exists>lg. fst (logStatus_loop logStatus closing i logged s) = Inr (logged @ lg) \<and>
           (\<forall>room\<in>set lg. \<exists>j k. i \<le> j \<and> j < length (rooms s) \<and>
               rooms s ! j = Some (k, room) \<and>
               (\<forall>i'. i \<le> i' \<and> i' \<le> j \<longrightarrow> room \<notin> set (closing i')))"
  using ok
proof (induction "length (rooms s) - i" arbitrary: i logged s)
  case 0
  let ?s1 = "closes (closing i) s"
  have "\<not> i < length (rooms ?s1)" using 0 by (simp add: closes_shape)
  then have "fst (logStatus_loop logStatus closing i logged s) = Inr logged"
    by (subst logStatus_loop.simps) (simp add: Let_def)
  then show ?case by simp
next
  case (Suc n)
  let ?s1 = "closes (closing i) s"
  have i: "i < length (rooms s)" using Suc.hyps(2) by simp
  have i1: "i < length (rooms ?s1)" using i by (simp add: closes_shape)
  have ok1: "registry_ok ?s1" by (rule registry_ok_closes[OF Suc.prems])
  have n: "n = length (rooms ?s1) - Suc i" using Suc.hyps(2) by (simp add: closes_shape)
  have lift: "\<exists>j k. i \<le> j \<and> j < length (rooms s) \<and> rooms s ! j = Some (k, room) \<and>
               (\<forall>i'. i \<le> i' \<and> i' \<le> j \<longrightarrow> room \<notin> set (closing i'))"
    if "\<exists>j k. Suc i \<le> j \<and> j < length (rooms ?s1) \<and> rooms ?s1 ! j = Some (k, room) \<and>
               (\<forall>i'. Suc i \<le> i' \<and> i' \<le> j \<longrightarrow> room \<notin> set (closing i'))" for room
  proof -
    from that obtain j k where j: "Suc i \<le> j" "j < length (rooms ?s1)"
        "rooms ?s1 ! j = Some (k, room)"
        "\<forall>i'. Suc i \<le> i' \<and> i' \<le> j \<longrightarrow> room \<notin> set (closing i')" by blast
    have js: "j < length (rooms s)" using j(2) by (simp add: closes_shape)
    note r = registered_not_closing[OF Suc.prems js j(3)]
    have "\<forall>i'. i \<le> i' \<and> i' \<le> j \<longrightarrow> room \<notin> set (closing i')"
    proof (intro allI impI)
      fix i' assume a: "i \<le> i' \<and> i' \<le> j"
      show "room \<notin> set (closing i')"
      proof (cases "i' = i")
        case True
        then show ?thesis using r(1) by simp
      next
        case False
        then show ?thesis using a j(4) by simp
      qed
    qed
    then show ?thesis using j(1) js r(4) by (intro exI[of _ j] exI[of _ k]) simp
  qed
  show ?case
  proof (cases "rooms ?s1 ! i")
    case None
    have u: "logStatus_loop logStatus closing i logged s =
             logStatus_loop logStatus closing (Suc i) logged ?s1"
      using i1 None by (subst logStatus_loop.simps) (simp add: Let_def)
    obtain lg where lg: "fst (logStatus_loop logStatus closing (Suc i) logged ?s1) = Inr (logged @ lg)"
      "\<forall>room\<in>set lg. \<exists>j k. Suc i \<le> j \<and> j < length (rooms ?s1) \<and>
               rooms ?s1 ! j = Some (k, room) \<and>
               (\<forall>i'. Suc i \<le> i' \<and> i' \<le> j \<longrightarrow> room \<notin> set (closing i'))"
      using Suc.hyps(1)[OF n ok1, of logged] by blast
    show ?thesis unfolding u using lg lift by (intro exI[of _ lg]) blast
  next
    case (Some e)
    obtain k room where e: "e = (k, room)" by (cases e)
    have at: "rooms ?s1 ! i = Some (k, room)" using Some e by simp
    note r = registered_not_closing[OF Suc.prems i at]
    have "logStatus (heap ?s1 ! room) = None" using fine r(3) by simp
    then have u: "logStatus_loop logStatus closing i logged s =
             logStatus_loop logStatus closing (Suc i) (logged @ [room]) ?s1"
      using i1 at by (subst logStatus_loop.simps) (simp add: Let_def)
    obtain lg where lg: "fst (logStatus_loop logStatus closing (Suc i) (logged @ [room]) ?s1)
           = Inr ((logged @ [room]) @ lg)"
      "\<forall>room\<in>set lg. \<exists>j k. Suc i \<le> j \<and> j < length (rooms ?s1) \<and>
               rooms ?s1 ! j = Some (k, room) \<and>
               (\<forall>i'. Suc i \<le> i' \<and> i' \<le> j \<longrightarrow> room \<notin> set (closing i'))"
      using Suc.hyps(1)[OF n ok1, of "logged @ [room]"] by blast
    have here: "\<exists>j k'. i \<le> j \<and> j < length (rooms s) \<and> rooms s ! j = Some (k', room) \<and>
               (\<forall>i'. i \<le> i' \<and> i' \<le> j \<longrightarrow> room \<notin> set (closing i'))"
      using i r(1,4) by (intro exI[of _ i] exI[of _ k]) auto
    have "\<forall>room'\<in>set (room # lg). \<exists>j k. i \<le> j \<and> j < length (rooms s) \<and>
               rooms s ! j = Some (k, room') \<and>
               (\<forall>i'. i \<le> i' \<and> i' \<le> j \<longrightarrow> room' \<notin> set (closing i'))"
      using here lg(2) lift by simp
    then show ?thesis unfolding u using lg(1) by (intro exI[of _ "room # lg"]) simp
  qed
qed

lemma logRoomsStatus_skips:
  assumes reach: "s = run evs (initial ws)"
    and fine: "\<forall>r. \<not> r_closed r \<longrightarrow> logStatus r = None"
  shows "\<exists>logged. fst (logRoomsStatus logStatus closing s) = Inr logged \<and>
           (\<forall>j k room i. j < length (rooms s) \<and> rooms s ! j = Some (k, room) \<and>
               i \<le> j \<and> room \<in> set (closing i) \<longrightarrow> room \<notin> set logged)"
proof -
  have ok: "registry_ok s" unfolding reach by (rule registry_ok_reach)
  have d: "distinct (Map_keys (rooms s))" using ok by (simp add: registry_ok_def)
  obtain lg where lg: "fst (logStatus_loop logStatus closing 0 [] s) = Inr lg"
    "\<forall>room\<in>set lg. \<exists>j k. j < length (rooms s) \<and> rooms s ! j = Some (k, room) \<and>
               (\<forall>i'. i' \<le> j \<longrightarrow> room \<notin> set (closing i'))"
    using logStatus_loop_skips[OF fine ok, of closing 0 "[]"] by auto
  have "room \<notin> set lg"
    if a: "j < length (rooms s)" "rooms s ! j = Some (k, room)" "i \<le> j" "room \<in> set (closing i)"
    for j k room i
  proof
    assume "room \<in> set lg"
    then obtain j' k' where b: "j' < length (rooms s)" "rooms s ! j' = Some (k', room)"
      "\<forall>i'. i' \<le> j' \<longrightarrow> room \<notin> set (closing i')" using lg(2) by blast
    have "Map_get (rooms s) k = Some room" by (rule Map_get_nth[OF d a(1,2)])
    then have k: "r_roomId (heap s ! room) = k" using ok by (auto simp: registry_ok_def)
    have "Map_get (rooms s) k' = Some room" by (rule Map_get_nth[OF d b(1,2)])
    then have "r_roomId (heap s ! room) = k'" using ok by (auto simp: registry_ok_def)
    then have "k' = k" using k by simp
    then have "j' = j" using nth_key_unique[OF d b(1) a(1) _ a(2)] b(2) by simp
    then show False using b(3) a(3,4) by simp
  qed
  then show ?thesis unfolding logRoomsStatus_def using lg(1) by (intro exI[of _ lg]) blast
qed

lemma logStatus_loop_logs_open:
  assumes fine: "\<forall>r. \<not> r_closed r \<longrightarrow> logStatus r = None"
    and ok: "registry_ok s"
    and at: "i \<le> j" "j < length (rooms s)" "rooms s ! j = Some (k, room)"
    and never: "\<forall>i'. room \<notin> set (closing i')"
  shows "\<exists>lg. fst (logStatus_loop logStatus closing i logged s) = Inr lg \<and> room \<in> set lg"
  using ok at
proof (induction "length (rooms s) - i" arbitrary: i logged s)
  case 0
  then show ?case by simp
next
  case (Suc n)
  let ?s1 = "closes (closing i) s"
  have i: "i < length (rooms s)" using Suc.hyps(2) by simp
  have i1: "i < length (rooms ?s1)" using i by (simp add: closes_shape)
  have j1: "j < length (rooms ?s1)" using Suc.prems(3) by (simp add: closes_shape)
  have ok1: "registry_ok ?s1" by (rule registry_ok_closes[OF Suc.prems(1)])
  have n: "n = length (rooms ?s1) - Suc i" using Suc.hyps(2) by (simp add: closes_shape)
  have keep: "rooms ?s1 ! j = Some (k, room)"
    using never by (intro closes_keeps_entry[OF Suc.prems(1,3,4)]) simp
  show ?case
  proof (cases "rooms ?s1 ! i")
    case None
    have u: "logStatus_loop logStatus closing i logged s =
             logStatus_loop logStatus closing (Suc i) logged ?s1"
      using i1 None by (subst logStatus_loop.simps) (simp add: Let_def)
    have "j \<noteq> i" using None keep by auto
    then have "Suc i \<le> j" using Suc.prems(2) by simp
    then show ?thesis unfolding u by (rule Suc.hyps(1)[OF n ok1 _ j1 keep])
  next
    case (Some e)
    obtain k' room' where e: "e = (k', room')" by (cases e)
    have at': "rooms ?s1 ! i = Some (k', room')" using Some e by simp
    note r = registered_not_closing[OF Suc.prems(1) i at']
    have "logStatus (heap ?s1 ! room') = None" using fine r(3) by simp
    then have u: "logStatus_loop logStatus closing i logged s =
             logStatus_loop logStatus closing (Suc i) (logged @ [room']) ?s1"
      using i1 at' by (subst logStatus_loop.simps) (simp add: Let_def)
    show ?thesis
    proof (cases "j = i")
      case True
      then have same: "room' = room" using keep at' by simp
      obtain lg where lg: "fst (logStatus_loop logStatus closing (Suc i) (logged @ [room']) ?s1)
           = Inr ((logged @ [room']) @ lg)"
        using logStatus_loop_skips[OF fine ok1, of closing "Suc i" "logged @ [room']"] by blast
      show ?thesis unfolding u using lg same by simp
    next
      case False
      then have "Suc i \<le> j" using Suc.prems(2) by simp
      then show ?thesis unfolding u by (rule Suc.hyps(1)[OF n ok1 _ j1 keep])
    qed
  qed
qed

text \<open>When no Room closes meanwhile, the report asks \<^verbatim>\<open>rooms.values()\<close>, in order.\<close>

lemma logStatus_loop_quiet:
  assumes fine: "\<forall>r. \<not> r_closed r \<longrightarrow> logStatus r = None" and ok: "registry_ok s"
  shows "logStatus_loop logStatus (\<lambda>i. []) i logged s =
           (Inr (logged @ Map_values (drop i (rooms s))), s)"
proof (induction "length (rooms s) - i" arbitrary: i logged)
  case 0
  then show ?case by (subst logStatus_loop.simps) simp
next
  case (Suc n)
  have i: "i < length (rooms s)" using Suc.hyps(2) by simp
  have n: "n = length (rooms s) - Suc i" using Suc.hyps(2) by simp
  have dr: "drop i (rooms s) = rooms s ! i # drop (Suc i) (rooms s)"
    using i by (simp add: Cons_nth_drop_Suc)
  show ?case
  proof (cases "rooms s ! i")
    case None
    then show ?thesis using i dr Suc.hyps(1)[OF n, of logged]
      by (subst logStatus_loop.simps) simp
  next
    case (Some e)
    obtain k room where e: "e = (k, room)" by (cases e)
    have at: "rooms s ! i = Some (k, room)" using Some e by simp
    have d: "distinct (Map_keys (rooms s))" using ok by (simp add: registry_ok_def)
    have "Map_get (rooms s) k = Some room" by (rule Map_get_nth[OF d i at])
    then have "\<not> r_closed (heap s ! room)" using ok by (auto simp: registry_ok_def)
    then have "logStatus (heap s ! room) = None" using fine by simp
    then show ?thesis using i dr at Suc.hyps(1)[OF n, of "logged @ [room]"]
      by (subst logStatus_loop.simps) simp
  qed
qed

lemma logRoomsStatus_quiet:
  assumes "\<forall>r. \<not> r_closed r \<longrightarrow> logStatus r = None" and "registry_ok s"
  shows "logRoomsStatus logStatus (\<lambda>i. []) s = (Inr (Map_values (rooms s)), s)"
  using logStatus_loop_quiet[OF assms, of 0 "[]"] by (simp add: logRoomsStatus_def)

text \<open>
  C9. Take a reachable state and a \<^verbatim>\<open>logStatus\<close> that does not throw on a Room that is
  open (on a closed Room it may). Whatever Rooms close while the report runs, the report
  raises no error; a Room that was registered when the iteration started and closed
  before the iterator reached its entry is not asked for its status; a Room that was
  registered and did not close is asked.
\<close>

theorem status_report_skips_closed:
  assumes reach: "s = run evs (initial ws)"
    and fine: "\<forall>r. \<not> r_closed r \<longrightarrow> logStatus r = None"
  shows "\<exists>logged. fst (logRoomsStatus logStatus closing s) = Inr logged \<and>
           (\<forall>j k room i. j < length (rooms s) \<and> rooms s ! j = Some (k, room) \<and>
               i \<le> j \<and> room \<in> set (closing i) \<longrightarrow> room \<notin> set logged) \<and>
           (\<forall>j k room. j < length (rooms s) \<and> rooms s ! j = Some (k, room) \<and>
               (\<forall>i. room \<notin> set (closing i)) \<longrightarrow> room \<in> set logged)"
proof -
  have ok: "registry_ok s" unfolding reach by (rule registry_ok_reach)
  obtain logged where lg: "fst (logRoomsStatus logStatus closing s) = Inr logged"
    "\<forall>j k room i. j < length (rooms s) \<and> rooms s ! j = Some (k, room) \<and>
               i \<le> j \<and> room \<in> set (closing i) \<longrightarrow> room \<notin> set logged"
    using logRoomsStatus_skips[OF reach fine] by blast
  have "room \<in> set logged"
    if a: "j < length (rooms s)" "rooms s ! j = Some (k, room)" "\<forall>i. room \<notin> set (closing i)"
    for j k room
    using logStatus_loop_logs_open[OF fine ok _ a(1,2,3), of 0 "[]"] lg(1)
    by (auto simp: logRoomsStatus_def)
  then show ?thesis using lg by (intro exI[of _ logged]) blast
qed

theorem status_report_skips_closed_witness:
  "rooms (run [ExpressParam ''A'', QueueNext None None, ExpressParam ''B'', QueueNext None None,
               ExpressParam ''C'', QueueNext None None] (initial [10, 20])) ! 2 = Some (QStr ''C'', 2) \<and>
   fst (logRoomsStatus
          (\<lambda>r. if r_closed r then Some \<lparr>e_name = ''Error'', e_message = ''closed'', e_status = None\<rparr>
                else None)
          (\<lambda>i. if i = 1 then [2] else [])
          (run [ExpressParam ''A'', QueueNext None None, ExpressParam ''B'', QueueNext None None,
               ExpressParam ''C'', QueueNext None None] (initial [10, 20]))) = Inr [0, 1]"
  (is "rooms ?s ! 2 = _ \<and> fst (logRoomsStatus ?L ?C _) = _")
proof -
  have fine: "\<forall>r. \<not> r_closed r \<longrightarrow> ?L r = None" by simp
  have s: "?s = \<lparr>rooms = [Some (QStr ''A'', 0), Some (QStr ''B'', 1), Some (QStr ''C'', 2)],
      mediasoupWorkers = [10, 20], nextMediasoupWorkerIdx = 1, queue = [],
      heap = [\<lparr>r_worker = Some 10, r_roomId = QStr ''A'', r_replicas = Num 0,
                r_closed = False, r_onclose = [QStr ''A'']\<rparr>,
              \<lparr>r_worker = Some 20, r_roomId = QStr ''B'', r_replicas = Num 0,
                r_closed = False, r_onclose = [QStr ''B'']\<rparr>,
              \<lparr>r_worker = Some 10, r_roomId = QStr ''C'', r_replicas = Num 0,
                r_closed = False, r_onclose = [QStr ''C'']\<rparr>],
      create_calls = [Some 10, Some 20, Some 10]\<rparr>"
    by (simp add: eval_defs)
  show ?thesis
    using status_report_skips_closed[OF refl fine, of ?C]
    unfolding s
    by (simp add: logRoomsStatus_def logStatus_loop.simps room_emit_close_def closes_def)
qed

section \<open>Listen ports of the WebRtcServers\<close>

lemma length_add_port [simp]: "length (add_port inc st a) = length st"
  by (simp add: add_port_def)

lemma length_foldl_add_port [simp]: "length (foldl (add_port inc) st as) = length st"
  by (induction as arbitrary: st) simp_all

lemma nth_add_port:
  "a < length st \<Longrightarrow>
   add_port inc st a ! j = (if j = a then (st ! a)\<lparr>li_port := li_port (st ! a) + inc\<rparr> else st ! j)"
  by (simp add: add_port_def nth_list_update)

lemma nth_foldl_add_port:
  assumes "distinct as" and "\<forall>a\<in>set as. a < length st"
  shows "foldl (add_port inc) st as ! j =
           (if j \<in> set as then (st ! j)\<lparr>li_port := li_port (st ! j) + inc\<rparr> else st ! j)"
  using assms
proof (induction as arbitrary: st)
  case Nil
  then show ?case by simp
next
  case (Cons a as)
  have a: "a < length st" and na: "a \<notin> set as" using Cons.prems by simp_all
  have ih: "foldl (add_port inc) (add_port inc st a) as ! j =
      (if j \<in> set as then (add_port inc st a ! j)\<lparr>li_port := li_port (add_port inc st a ! j) + inc\<rparr>
       else add_port inc st a ! j)"
    using Cons.prems by (intro Cons.IH) simp_all
  show ?case using ih na a by (auto simp: nth_add_port)
qed

lemma clone_ports:
  assumes "clone infos st = (opts, st1)"
  shows "map (\<lambda>a. foldl (add_port inc) st1 opts ! a) opts =
           map (\<lambda>a. (st ! a)\<lparr>li_port := li_port (st ! a) + inc\<rparr>) infos"
    and "\<forall>j<length st. foldl (add_port inc) st1 opts ! j = st ! j"
    and "length st \<le> length (foldl (add_port inc) st1 opts)"
proof -
  have o: "opts = [length st ..< length st + length infos]"
    and s: "st1 = st @ map (\<lambda>a. st ! a) infos"
    using assms by (simp_all add: clone_def)
  have d: "distinct opts" and r: "\<forall>a\<in>set opts. a < length st1" by (simp_all add: o s)
  note n = nth_foldl_add_port[OF d r, of inc]
  show "map (\<lambda>a. foldl (add_port inc) st1 opts ! a) opts =
           map (\<lambda>a. (st ! a)\<lparr>li_port := li_port (st ! a) + inc\<rparr>) infos"
    by (rule nth_equalityI) (simp_all add: n, simp_all add: o s nth_append)
  show "\<forall>j<length st. foldl (add_port inc) st1 opts ! j = st ! j"
    by (simp add: n, simp add: o s nth_append)
  show "length st \<le> length (foldl (add_port inc) st1 opts)" by (simp add: s)
qed

lemma workers_loop_ports:
  assumes wf: "\<forall>a\<in>set (listenInfos cfg). a < length store"
    and cw: "\<forall>i<numWorkers cfg. \<exists>w. createWorker i = Inr w"
    and cs: "\<forall>i<numWorkers cfg. createWebRtcServer i = None"
    and len: "length (b_workers b) = i" "length (b_servers b) = i" "i \<le> numWorkers cfg"
    and old: "length store \<le> length (b_store b)" "\<forall>j<length store. b_store b ! j = store ! j"
    and sofar: "\<forall>j<i. map li_port (snd (b_servers b ! j)) =
                 map (\<lambda>a. li_port (store ! a) + int j) (listenInfos cfg)"
  shows "\<exists>b'. workers_loop createWorker createWebRtcServer True cfg i b = Inr b' \<and>
           length (b_workers b') = numWorkers cfg \<and>
           length (b_servers b') = numWorkers cfg \<and>
           (\<forall>j<numWorkers cfg. map li_port (snd (b_servers b' ! j)) =
                 map (\<lambda>a. li_port (store ! a) + int j) (listenInfos cfg)) \<and>
           (\<forall>j<length store. b_store b' ! j = store ! j)"
  using len old sofar
proof (induction "numWorkers cfg - i" arbitrary: i b)
  case 0
  then have "i = numWorkers cfg" by simp
  then show ?case using 0 by (subst workers_loop.simps) simp
next
  case (Suc n)
  have i: "i < numWorkers cfg" using Suc.hyps(2) by simp
  obtain w where w: "createWorker i = Inr w" using cw i by blast
  have srv: "createWebRtcServer i = None" using cs i by simp
  let ?b1 = "b\<lparr>b_workers := b_workers b @ [w]\<rparr>"
  obtain opts st1 where cl: "clone (listenInfos cfg) (b_store b) = (opts, st1)"
    by (cases "clone (listenInfos cfg) (b_store b)")
  let ?st2 = "foldl (add_port (int i)) st1 opts"
  let ?b2 = "?b1\<lparr>b_store := ?st2, b_servers := b_servers ?b1 @ [(w, map (\<lambda>a. ?st2 ! a) opts)]\<rparr>"
  note cp = clone_ports[OF cl, of "int i"]
  have unfold: "workers_loop createWorker createWebRtcServer True cfg i b =
                workers_loop createWorker createWebRtcServer True cfg (Suc i) ?b2"
    using i w srv cl Suc.prems(1)
    by (subst workers_loop.simps) (simp add: Let_def)
  have same: "\<forall>a\<in>set (listenInfos cfg). b_store b ! a = store ! a"
    using wf Suc.prems(5) by auto
  have ports: "map li_port (map (\<lambda>a. ?st2 ! a) opts) =
      map (\<lambda>a. li_port (store ! a) + int i) (listenInfos cfg)"
    unfolding cp(1) using same by simp
  have ih: "\<exists>b'. workers_loop createWorker createWebRtcServer True cfg (Suc i) ?b2 = Inr b' \<and>
           length (b_workers b') = numWorkers cfg \<and>
           length (b_servers b') = numWorkers cfg \<and>
           (\<forall>j<numWorkers cfg. map li_port (snd (b_servers b' ! j)) =
                 map (\<lambda>a. li_port (store ! a) + int j) (listenInfos cfg)) \<and>
           (\<forall>j<length store. b_store b' ! j = store ! j)"
  proof (rule Suc.hyps(1))
    show "n = numWorkers cfg - Suc i" using Suc.hyps(2) by simp
    show "length (b_workers ?b2) = Suc i" using Suc.prems(1) by simp
    show "length (b_servers ?b2) = Suc i" using Suc.prems(2) by simp
    show "Suc i \<le> numWorkers cfg" using i by simp
    show "length store \<le> length (b_store ?b2)" using cp(3) Suc.prems(4) by simp
    show "\<forall>j<length store. b_store ?b2 ! j = store ! j"
      using cp(2) Suc.prems(4,5) by simp
    show "\<forall>j<Suc i. map li_port (snd (b_servers ?b2 ! j)) =
             map (\<lambda>a. li_port (store ! a) + int j) (listenInfos cfg)"
    proof (intro allI impI)
      fix j assume "j < Suc i"
      then consider "j < i" | "j = i" by linarith
      then show "map li_port (snd (b_servers ?b2 ! j)) =
             map (\<lambda>a. li_port (store ! a) + int j) (listenInfos cfg)"
      proof cases
        case 1
        then show ?thesis using Suc.prems(2,6) by (simp add: nth_append)
      next
        case 2
        then show ?thesis using Suc.prems(2) ports by (simp add: nth_append)
      qed
    qed
  qed
  show ?case unfolding unfold by (rule ih)
qed

text \<open>
  C10. Let the addresses of the configured \<^verbatim>\<open>listenInfos\<close> be objects of the store, let
  WebRtcServers be wanted and let every worker and every WebRtcServer be created without
  error. Then \<^verbatim>\<open>runMediasoupWorkers\<close> returns with \<^verbatim>\<open>numWorkers\<close> workers and as many
  WebRtcServers; the ports given to the WebRtcServer of worker \<open>i\<close> are the configured
  ports plus \<open>i\<close>; and every object that was in the store before, the configured
  \<^verbatim>\<open>listenInfos\<close> among them, is as it was.
\<close>

theorem webRtcServer_ports:
  assumes "\<forall>a\<in>set (listenInfos cfg). a < length store"
    and "\<forall>i<numWorkers cfg. \<exists>w. createWorker i = Inr w"
    and "\<forall>i<numWorkers cfg. createWebRtcServer i = None"
  shows "\<exists>b. runMediasoupWorkers createWorker createWebRtcServer True cfg store = Inr b \<and>
           length (b_workers b) = numWorkers cfg \<and>
           length (b_servers b) = numWorkers cfg \<and>
           (\<forall>i<numWorkers cfg. map li_port (snd (b_servers b ! i)) =
                 map (\<lambda>a. li_port (store ! a) + int i) (listenInfos cfg)) \<and>
           (\<forall>a<length store. b_store b ! a = store ! a)"
  unfolding runMediasoupWorkers_def
  by (rule workers_loop_ports[OF assms]) simp_all

theorem webRtcServer_ports_witness:
  "map_sum id (\<lambda>b. (b_workers b, map (\<lambda>(w, infos). map li_port infos) (b_servers b), take 2 (b_store b)))
     (runMediasoupWorkers (\<lambda>i. Inr (100 + i)) (\<lambda>i. None) True
        \<lparr>numWorkers = 3, listenInfos = [0, 1]\<rparr>
        [\<lparr>li_protocol = ''udp'', li_ip = ''0.0.0.0'', li_port = 44444\<rparr>,
         \<lparr>li_protocol = ''tcp'', li_ip = ''0.0.0.0'', li_port = 44444\<rparr>]) =
   Inr ([100, 101, 102], [[44444, 44444], [44445, 44445], [44446, 44446]],
        [\<lparr>li_protocol = ''udp'', li_ip = ''0.0.0.0'', li_port = 44444\<rparr>,
         \<lparr>li_protocol = ''tcp'', li_ip = ''0.0.0.0'', li_port = 44444\<rparr>])"
proof -
  have h1: "\<forall>a\<in>set (listenInfos \<lparr>numWorkers = 3, listenInfos = [0, 1]\<rparr>).
      a < length [\<lparr>li_protocol = ''udp'', li_ip = ''0.0.0.0'', li_port = 44444\<rparr>,
         \<lparr>li_protocol = ''tcp'', li_ip = ''0.0.0.0'', li_port = 44444\<rparr>]" by simp
  have h2: "\<forall>i<numWorkers \<lparr>numWorkers = 3, listenInfos = [0, 1]\<rparr>.
      \<exists>w. (\<lambda>i. Inr (100 + i) :: js_error + worker) i = Inr w" by simp
  have h3: "\<forall>i<numWorkers \<lparr>numWorkers = 3, listenInfos = [0, 1]\<rparr>.
      (\<lambda>i. None :: js_error option) i = None" by simp
  show ?thesis
    using webRtcServer_ports[OF h1 h2 h3]
    by (simp add: runMediasoupWorkers_def workers_loop.simps clone_def add_port_def
          upt_rec[of 2] upt_rec[of 3] upt_rec[of 4] upt_rec[of 5] upt_rec[of 6] upt_rec[of 7])
qed

end
